theory Spec2Isabelle
  imports Main "HOL-Library.Sublist"
begin

section \<open>Strings and character classes\<close>

text \<open>
  Python strings are sequences of Unicode code points, and the program is about code points
  beyond ASCII (dashes, no-break spaces). A character is its code point, a string a list
  of them.
\<close>

type_synonym uchar = nat
type_synonym ustring = "uchar list"

definition ustr :: "string \<Rightarrow> ustring" where
  "ustr s = map of_char s"

text \<open>
  \<^verbatim>\<open>str.isspace()\<close> on one character, and \<^verbatim>\<open>\s\<close> in a pattern over \<^verbatim>\<open>str\<close>: the
  white space of the Unicode character database, which CPython keeps as a fixed table.
\<close>

definition isspace :: "uchar \<Rightarrow> bool" where
  "isspace c \<longleftrightarrow>
     (9 \<le> c \<and> c \<le> 13) \<or> (28 \<le> c \<and> c \<le> 32) \<or> c = 133 \<or> c = 160 \<or> c = 5760 \<or>
     (8192 \<le> c \<and> c \<le> 8202) \<or> c = 8232 \<or> c = 8233 \<or> c = 8239 \<or> c = 8287 \<or> c = 12288"

text \<open>
  The nine characters of \<^verbatim>\<open>HYPHENS_CLASS\<close> (line 10), which are also the characters of the
  string tested on line 39: U+002D, U+2010, U+2011, U+2012, U+2013, U+2014, U+2212, U+FE63,
  U+FF0D.
\<close>

definition HYPHENS :: "uchar list" where
  "HYPHENS = [45, 8208, 8209, 8210, 8211, 8212, 8722, 65123, 65293]"

section \<open>The fragment of \<^verbatim>\<open>re\<close> that the program uses\<close>

text \<open>
  Every pattern of the program is a sequence of pieces, each one atom, taken once or
  repeated greedily at least \<open>m\<close> times (\<^verbatim>\<open>+\<close> is \<open>AtLeast 1\<close>, \<^verbatim>\<open>{2,}\<close> is \<open>AtLeast 2\<close>).
  The atoms are a literal character (what \<^verbatim>\<open>re.escape\<close> of one character compiles to), the
  class \<^verbatim>\<open>[HYPHENS_CLASS]\<close>, the class \<^verbatim>\<open>[SPACES_CLASS]\<close> and \<^verbatim>\<open>\s\<close>.
\<close>

datatype atom = Literal uchar | HyphensClass | SpacesClass | Whitespace

datatype piece = Once atom | AtLeast nat atom

text \<open>
  What an atom matches without flags. \<^verbatim>\<open>SPACES_CLASS\<close> (line 11) is \<^verbatim>\<open>\s\<close> together with
  U+00A0 and U+202F.
\<close>

fun plain :: "atom \<Rightarrow> uchar \<Rightarrow> bool" where
  "plain (Literal x) c = (c = x)"
| "plain HyphensClass c = (c \<in> set HYPHENS)"
| "plain SpacesClass c = (isspace c \<or> c = 160 \<or> c = 8239)"
| "plain Whitespace c = isspace c"

text \<open>
  The lengths of the matches of a piece list at the start of a string, in the order in which
  the backtracking matcher finds them: a greedy repetition tries the longest run first.
\<close>

fun match_lens :: "(atom \<Rightarrow> uchar \<Rightarrow> bool) \<Rightarrow> piece list \<Rightarrow> ustring \<Rightarrow> nat list" where
  "match_lens M [] s = [0]"
| "match_lens M (Once a # ps) [] = []"
| "match_lens M (Once a # ps) (c # cs) =
     (if M a c then map Suc (match_lens M ps cs) else [])"
| "match_lens M (AtLeast m a # ps) s =
     concat (map (\<lambda>k. map (\<lambda>j. k + j) (match_lens M ps (drop k s)))
                 (rev [m ..< Suc (length (takeWhile (M a) s))]))"

text \<open>
  The match the engine reports at a position: the first one, or, when the previous match was
  empty and ended here (\<open>adv\<close>), the first non-empty one.
\<close>

definition first_match :: "(atom \<Rightarrow> uchar \<Rightarrow> bool) \<Rightarrow> piece list \<Rightarrow> bool \<Rightarrow> ustring \<Rightarrow> nat option" where
  "first_match M ps adv s = List.find (\<lambda>k. \<not> adv \<or> 0 < k) (match_lens M ps s)"

lemma match_lens_le: "k \<in> set (match_lens M ps s) \<Longrightarrow> k \<le> length s"
proof (induction M ps s arbitrary: k rule: match_lens.induct)
  case (1 M s)
  then show ?case by simp
next
  case (2 M a ps)
  then show ?case by simp
next
  case (3 M a ps c cs)
  then show ?case by (auto split: if_splits)
next
  case (4 M m a ps s)
  from "4.prems" obtain i j where i: "i \<in> set (rev [m ..< Suc (length (takeWhile (M a) s))])"
    and j: "j \<in> set (match_lens M ps (drop i s))" and k: "k = i + j"
    by auto
  have "j \<le> length (drop i s)" using "4.IH" [OF i j] .
  moreover have "i \<le> length s"
    using i length_takeWhile_le [of "M a" s] by auto
  ultimately show ?case using k by simp
qed

lemma first_match_le: "first_match M ps adv s = Some k \<Longrightarrow> k \<le> length s"
  unfolding first_match_def by (auto simp: find_Some_iff intro: match_lens_le [OF nth_mem])

text \<open>
  \<^verbatim>\<open>pattern.sub(repl, s)\<close>, with the replacement given as a function of the matched text:
  scan from the left; at a match, emit the replacement and go on behind it; otherwise copy
  one character. An empty match is replaced too, and the next match at the same position
  has to be non-empty.
\<close>

function re_sub :: "(atom \<Rightarrow> uchar \<Rightarrow> bool) \<Rightarrow> piece list \<Rightarrow> (ustring \<Rightarrow> ustring) \<Rightarrow> bool \<Rightarrow> ustring \<Rightarrow> ustring" where
  "re_sub M ps repl adv s =
     (case first_match M ps adv s of
        None \<Rightarrow> (case s of [] \<Rightarrow> [] | c # cs \<Rightarrow> c # re_sub M ps repl False cs)
      | Some 0 \<Rightarrow> repl [] @ (if adv then [] else re_sub M ps repl True s)
      | Some (Suc k) \<Rightarrow> repl (take (Suc k) s) @ re_sub M ps repl False (drop (Suc k) s))"
  by pat_completeness auto
termination
proof (relation "measures [\<lambda>(M, ps, repl, adv, s). length s, \<lambda>(M, ps, repl, adv, s). if adv then 0 else 1]")
  show "wf (measures [\<lambda>(M, ps, repl, adv, s). length s, \<lambda>(M, ps, repl, adv, s). if adv then 0 else (1::nat)])"
    by simp
next
  fix M :: "atom \<Rightarrow> uchar \<Rightarrow> bool" and ps :: "piece list" and repl :: "ustring \<Rightarrow> ustring"
    and adv :: bool and s :: ustring and c cs
  assume "s = c # cs"
  then show "((M, ps, repl, False, cs), (M, ps, repl, adv, s))
      \<in> measures [\<lambda>(M, ps, repl, adv, s). length s, \<lambda>(M, ps, repl, adv, s). if adv then 0 else (1::nat)]"
    by simp
next
  fix M :: "atom \<Rightarrow> uchar \<Rightarrow> bool" and ps :: "piece list" and repl :: "ustring \<Rightarrow> ustring"
    and adv :: bool and s :: ustring
  assume "\<not> adv"
  then show "((M, ps, repl, True, s), (M, ps, repl, adv, s))
      \<in> measures [\<lambda>(M, ps, repl, adv, s). length s, \<lambda>(M, ps, repl, adv, s). if adv then 0 else (1::nat)]"
    by simp
next
  fix M :: "atom \<Rightarrow> uchar \<Rightarrow> bool" and ps :: "piece list" and repl :: "ustring \<Rightarrow> ustring"
    and adv :: bool and s :: ustring and x2 k
  assume "first_match M ps adv s = Some x2" "x2 = Suc k"
  then have "Suc k \<le> length s" using first_match_le by blast
  then show "((M, ps, repl, False, drop (Suc k) s), (M, ps, repl, adv, s))
      \<in> measures [\<lambda>(M, ps, repl, adv, s). length s, \<lambda>(M, ps, repl, adv, s). if adv then 0 else (1::nat)]"
    by simp
qed

declare re_sub.simps [simp del]

text \<open>\<^verbatim>\<open>pattern.search(s)\<close> as a truth value: is there a match at some position.\<close>

fun search :: "(atom \<Rightarrow> uchar \<Rightarrow> bool) \<Rightarrow> piece list \<Rightarrow> ustring \<Rightarrow> bool" where
  "search M ps [] = (match_lens M ps [] \<noteq> [])"
| "search M ps (c # cs) = (match_lens M ps (c # cs) \<noteq> [] \<or> search M ps cs)"

section \<open>The Normalizer\<close>

text \<open>\<^verbatim>\<open>str.strip()\<close>: drop the white space at both ends.\<close>

definition strip :: "ustring \<Rightarrow> ustring" where
  "strip s = rev (dropWhile isspace (rev (dropWhile isspace s)))"

text \<open>
  \<^verbatim>\<open>normalize_spaces\<close> (lines 13 to 19): three substitutions with constant replacements,
  one per line of the source, then \<^verbatim>\<open>strip\<close>. Space is 32, the period 46.
\<close>

definition sub_space_runs :: "ustring \<Rightarrow> ustring" where
  \<comment> \<open>line 16: \<^verbatim>\<open>re.sub(f"[{SPACES_CLASS}]+", " ", name)\<close>\<close>
  "sub_space_runs name = re_sub plain [AtLeast 1 SpacesClass] (\<lambda>_. [32]) False name"

definition sub_double_spaces :: "ustring \<Rightarrow> ustring" where
  \<comment> \<open>line 17: \<^verbatim>\<open>re.sub(r"\s{2,}", " ", name)\<close>\<close>
  "sub_double_spaces name = re_sub plain [AtLeast 2 Whitespace] (\<lambda>_. [32]) False name"

definition sub_space_dot :: "ustring \<Rightarrow> ustring" where
  \<comment> \<open>line 18: \<^verbatim>\<open>re.sub(r"\s+\.", ".", name)\<close>\<close>
  "sub_space_dot name =
     re_sub plain [AtLeast 1 Whitespace, Once (Literal 46)] (\<lambda>_. [46]) False name"

definition normalize_spaces :: "ustring \<Rightarrow> ustring" where
  "normalize_spaces name = strip (sub_space_dot (sub_double_spaces (sub_space_runs name)))"


section \<open>The Pattern Builder\<close>

text \<open>
  A compiled pattern: its pieces and the \<^verbatim>\<open>re.IGNORECASE\<close> flag it was compiled with.
\<close>

record pattern =
  pieces :: "piece list"
  ignorecase :: bool

text \<open>
  Matching under the flag. The flag changes literals only: both classes hold caseless
  characters and the category \<^verbatim>\<open>\s\<close>, and the compiler emits the plain set operation for
  them. How a literal of the pattern compares with a character of the text without regard
  to case is decided by the Unicode tables of the interpreter, which are not part of the
  program: \<open>ceq\<close> stands for that comparison.
\<close>

fun atom_matches :: "(uchar \<Rightarrow> uchar \<Rightarrow> bool) \<Rightarrow> bool \<Rightarrow> atom \<Rightarrow> uchar \<Rightarrow> bool" where
  "atom_matches ceq ic (Literal x) c = (if ic then ceq x c else c = x)"
| "atom_matches ceq ic a c = plain a c"

text \<open>The body of the loop of lines 38 to 44: the piece for one character of the phrase.\<close>

definition loose_atom :: "uchar \<Rightarrow> atom" where
  "loose_atom ch =
     (if ch \<in> set HYPHENS then HyphensClass
      else if isspace ch \<or> ch \<in> set [160, 8239] then SpacesClass
      else Literal ch)"

text \<open>
  \<^verbatim>\<open>build_pattern\<close> (lines 21 to 48). \<^verbatim>\<open>unicodedata.normalize("NFKC", phrase)\<close> is a table
  of the interpreter too: \<open>nfkc\<close> stands for it. \<^verbatim>\<open>re.escape\<close> of a text compiles to the
  literals of its characters.
\<close>

definition build_pattern :: "(ustring \<Rightarrow> ustring) \<Rightarrow> ustring \<Rightarrow> bool \<Rightarrow> bool \<Rightarrow> pattern" where
  "build_pattern nfkc phrase ignore_case loose =
     (if \<not> loose then \<lparr>pieces = map (\<lambda>ch. Once (Literal ch)) phrase, ignorecase = ignore_case\<rparr>
      else
        let p = nfkc phrase;
            out = foldl (\<lambda>out ch. out @ [Once (loose_atom ch)]) [] p
        in \<lparr>pieces = out, ignorecase = ignore_case\<rparr>)"

section \<open>Replacement templates\<close>

text \<open>
  \<^verbatim>\<open>pattern.sub(repl, string)\<close> with a string \<^verbatim>\<open>repl\<close> reads it as a template: before it
  looks for any match it parses the backslash escapes of \<^verbatim>\<open>repl\<close>, and raises on a
  malformed one. The patterns of the program have no groups, so the only group a template
  can name is group 0, the whole match. The exceptions the program can meet:
\<close>

datatype error = TemplateError | ValueError | FileNotFoundError | PermissionError
  | IsADirectoryError | ResolveError

datatype titem = TChar uchar | TGroup

definition isdigit :: "uchar \<Rightarrow> bool" where
  "isdigit c \<longleftrightarrow> 48 \<le> c \<and> c \<le> 57"

definition isoctdigit :: "uchar \<Rightarrow> bool" where
  "isoctdigit c \<longleftrightarrow> 48 \<le> c \<and> c \<le> 55"

definition isasciiletter :: "uchar \<Rightarrow> bool" where
  "isasciiletter c \<longleftrightarrow> (65 \<le> c \<and> c \<le> 90) \<or> (97 \<le> c \<and> c \<le> 122)"

text \<open>The escapes a template knows: a, b, f, n, r, t, v and the backslash itself.\<close>

definition ESCAPES :: "uchar \<Rightarrow> uchar option" where
  "ESCAPES c =
     (if c = 97 then Some 7 else if c = 98 then Some 8 else if c = 102 then Some 12
      else if c = 110 then Some 10 else if c = 114 then Some 13 else if c = 116 then Some 9
      else if c = 118 then Some 11 else if c = 92 then Some 92 else None)"

definition prepend :: "titem list \<Rightarrow> error + titem list \<Rightarrow> error + titem list" where
  "prepend items r = (case r of Inl e \<Rightarrow> Inl e | Inr t \<Rightarrow> Inr (items @ t))"

text \<open>
  The template parser of \<^verbatim>\<open>re\<close> (as of CPython 3.12), for a pattern without groups. A
  backslash (92) starts an
  escape: \<^verbatim>\<open>\g<name>\<close> is a group reference, and raises unless the name is a decimal
  number equal to 0; \<^verbatim>\<open>\0\<close> starts an octal escape of up to three digits; another digit
  starts a three-digit octal escape or a reference to a group that does not exist; the
  escapes of \<open>ESCAPES\<close> give their character; any other ASCII letter raises; anything
  else stands for itself, backslash included. A bad group name and an unknown group name
  raise different exceptions in Python, which are one error here.
\<close>

function parse_template :: "ustring \<Rightarrow> error + titem list" where
  "parse_template [] = Inr []"
| "parse_template (c # cs) =
     (if c \<noteq> 92 then prepend [TChar c] (parse_template cs)
      else case cs of
        [] \<Rightarrow> Inl TemplateError
      | d # ds \<Rightarrow>
          if d = 103 then
            (case ds of
               [] \<Rightarrow> Inl TemplateError
             | lt # r \<Rightarrow>
                 if lt \<noteq> 60 then Inl TemplateError
                 else if 62 \<notin> set r then Inl TemplateError
                 else let name = takeWhile (\<lambda>x. x \<noteq> 62) r in
                   if name = [] then Inl TemplateError
                   else if list_all isdigit name \<and> list_all (\<lambda>x. x = 48) name
                   then prepend [TGroup] (parse_template (tl (dropWhile (\<lambda>x. x \<noteq> 62) r)))
                   else Inl TemplateError)
          else if d = 48 then
            (case ds of
               o1 # r1 \<Rightarrow>
                 if isoctdigit o1 then
                   (case r1 of
                      o2 # r2 \<Rightarrow>
                        if isoctdigit o2
                        then prepend [TChar ((8 * (o1 - 48) + (o2 - 48)) mod 256)] (parse_template r2)
                        else prepend [TChar (o1 - 48)] (parse_template r1)
                    | [] \<Rightarrow> prepend [TChar (o1 - 48)] (parse_template r1))
                 else prepend [TChar 0] (parse_template ds)
             | [] \<Rightarrow> prepend [TChar 0] (parse_template ds))
          else if isdigit d then
            (case ds of
               e # r1 \<Rightarrow>
                 if isdigit e then
                   (case r1 of
                      f # r2 \<Rightarrow>
                        if isoctdigit d \<and> isoctdigit e \<and> isoctdigit f then
                          (if 64 * (d - 48) + 8 * (e - 48) + (f - 48) > 255 then Inl TemplateError
                           else prepend [TChar (64 * (d - 48) + 8 * (e - 48) + (f - 48))]
                                  (parse_template r2))
                        else Inl TemplateError
                    | [] \<Rightarrow> Inl TemplateError)
                 else Inl TemplateError
             | [] \<Rightarrow> Inl TemplateError)
          else
            (case ESCAPES d of
               Some v \<Rightarrow> prepend [TChar v] (parse_template ds)
             | None \<Rightarrow>
                 if isasciiletter d then Inl TemplateError
                 else prepend [TChar 92, TChar d] (parse_template ds)))"
  by pat_completeness auto
termination
proof (relation "measure length")
  fix c d lt :: uchar and cs ds r :: ustring
  assume "cs = d # ds" "ds = lt # r"
  moreover have "length (tl (dropWhile (\<lambda>x. x \<noteq> 62) r)) \<le> length r"
    using length_dropWhile_le [of "\<lambda>x. x \<noteq> 62" r] by simp
  ultimately show "(tl (dropWhile (\<lambda>x. x \<noteq> 62) r), c # cs) \<in> measure length"
    by simp
qed auto

declare parse_template.simps(2) [simp del]

text \<open>What a parsed template gives for one match: group 0 is the matched text.\<close>

definition expand_template :: "titem list \<Rightarrow> ustring \<Rightarrow> ustring" where
  "expand_template t m = concat (map (\<lambda>i. case i of TChar c \<Rightarrow> [c] | TGroup \<Rightarrow> m) t)"

definition pattern_sub :: "(uchar \<Rightarrow> uchar \<Rightarrow> bool) \<Rightarrow> pattern \<Rightarrow> ustring \<Rightarrow> ustring \<Rightarrow> error + ustring" where
  "pattern_sub ceq pat repl s =
     (case parse_template repl of
        Inl e \<Rightarrow> Inl e
      | Inr t \<Rightarrow>
          Inr (re_sub (atom_matches ceq (ignorecase pat)) (pieces pat) (expand_template t) False s))"

definition pattern_search :: "(uchar \<Rightarrow> uchar \<Rightarrow> bool) \<Rightarrow> pattern \<Rightarrow> ustring \<Rightarrow> bool" where
  "pattern_search ceq pat s = search (atom_matches ceq (ignorecase pat)) (pieces pat) s"

section \<open>The Rename Planner\<close>

text \<open>\<^verbatim>\<open>propose_new_name\<close> (lines 50 to 53). The mode is the string the program compares.\<close>

definition propose_new_name :: "(uchar \<Rightarrow> uchar \<Rightarrow> bool) \<Rightarrow> ustring \<Rightarrow> pattern \<Rightarrow> string \<Rightarrow> ustring \<Rightarrow> error + ustring" where
  "propose_new_name ceq name pat mode replacement =
     (case pattern_sub ceq pat (if mode = ''delete'' then [] else replacement) name of
        Inl e \<Rightarrow> Inl e
      | Inr new \<Rightarrow> Inr (normalize_spaces new))"


section \<open>Paths and the file system\<close>

text \<open>
  A resolved path is the list of its components below the root; \<open>[]\<close> is \<^verbatim>\<open>Path("/")\<close>.
  \<^verbatim>\<open>p.name\<close> is the last component. \<^verbatim>\<open>p.with_name(name)\<close> replaces it, and raises
  \<^verbatim>\<open>ValueError\<close> for a name that is empty, holds the separator (47) or is a single period,
  as \<^verbatim>\<open>pathlib\<close> checks it since Python 3.12.
\<close>

type_synonym path = "ustring list"

definition path_name :: "path \<Rightarrow> ustring" where
  "path_name p = (if p = [] then [] else last p)"

definition with_name :: "path \<Rightarrow> ustring \<Rightarrow> error + path" where
  "with_name p name =
     (if p = [] \<or> name = [] \<or> 47 \<in> set name \<or> name = [46] then Inl ValueError
      else Inr (butlast p @ [name]))"

text \<open>
  The part of the file system the program reads and writes: the regular files, each with a
  number standing for its content, in the order in which a directory scan yields them; the
  directories; and the files the operating system refuses to rename.
\<close>

record filesystem =
  files :: "(path \<times> nat) list"
  dirs :: "path list"
  denied :: "path list"

definition is_file :: "filesystem \<Rightarrow> path \<Rightarrow> bool" where
  "is_file fs p \<longleftrightarrow> p \<in> set (map fst (files fs))"

definition is_dir :: "filesystem \<Rightarrow> path \<Rightarrow> bool" where
  "is_dir fs p \<longleftrightarrow> p \<in> set (dirs fs)"

definition exists :: "filesystem \<Rightarrow> path \<Rightarrow> bool" where
  "exists fs p \<longleftrightarrow> is_file fs p \<or> is_dir fs p"

text \<open>
  \<^verbatim>\<open>src.rename(dst)\<close>, the only call of the program that changes the file system. On
  POSIX it replaces a regular file that is in the way.
\<close>

definition rename :: "filesystem \<Rightarrow> path \<Rightarrow> path \<Rightarrow> error + filesystem" where
  "rename fs src dst =
     (if \<not> is_file fs src then Inl FileNotFoundError
      else if src \<in> set (denied fs) then Inl PermissionError
      else if is_dir fs dst then Inl IsADirectoryError
      else if dst = src then Inr fs
      else Inr (fs\<lparr>files :=
             map (\<lambda>(p, c). if p = src then (dst, c) else (p, c))
                 (filter (\<lambda>(p, c). p \<noteq> dst) (files fs))\<rparr>))"

text \<open>
  \<^verbatim>\<open>iter_files\<close> (lines 55 to 59): the regular files directly in \<open>root\<close>, or anywhere
  below it.
\<close>

definition iter_files :: "filesystem \<Rightarrow> path \<Rightarrow> bool \<Rightarrow> path list" where
  "iter_files fs root recursive =
     filter (\<lambda>p. if recursive then strict_prefix root p else p \<noteq> [] \<and> butlast p = root)
            (map fst (files fs))"

text \<open>
  \<^verbatim>\<open>collect_changes\<close> (lines 61 to 70): the loop over the files, with the two variables it
  updates. An exception of \<^verbatim>\<open>propose_new_name\<close> or \<^verbatim>\<open>with_name\<close> ends it.
\<close>

fun collect_loop :: "(uchar \<Rightarrow> uchar \<Rightarrow> bool) \<Rightarrow> pattern \<Rightarrow> string \<Rightarrow> ustring \<Rightarrow> path list
    \<Rightarrow> (path \<times> path) list \<Rightarrow> nat \<Rightarrow> error + (path \<times> path) list \<times> nat" where
  "collect_loop ceq pat mode replacement [] changes total_checked = Inr (changes, total_checked)"
| "collect_loop ceq pat mode replacement (p # ps) changes total_checked =
     (case propose_new_name ceq (path_name p) pat mode replacement of
        Inl e \<Rightarrow> Inl e
      | Inr new_name \<Rightarrow>
          if new_name \<noteq> path_name p then
            (case with_name p new_name of
               Inl e \<Rightarrow> Inl e
             | Inr q \<Rightarrow>
                 collect_loop ceq pat mode replacement ps (changes @ [(p, q)]) (total_checked + 1))
          else collect_loop ceq pat mode replacement ps changes (total_checked + 1))"

definition collect_changes :: "(uchar \<Rightarrow> uchar \<Rightarrow> bool) \<Rightarrow> filesystem \<Rightarrow> path \<Rightarrow> bool \<Rightarrow> pattern
    \<Rightarrow> string \<Rightarrow> ustring \<Rightarrow> error + (path \<times> path) list \<times> nat" where
  "collect_changes ceq fs root recursive pat mode replacement =
     collect_loop ceq pat mode replacement (iter_files fs root recursive) [] 0"

section \<open>The Safety Gate\<close>

text \<open>
  \<^verbatim>\<open>is_dangerous_root\<close> (lines 72 to 77). \<^verbatim>\<open>Path.resolve\<close> depends on the links of the
  file system and may raise: \<open>resolve\<close> stands for it, \<open>None\<close> for an exception.
\<close>

definition is_dangerous_root :: "(path \<Rightarrow> path option) \<Rightarrow> path \<Rightarrow> path \<Rightarrow> bool" where
  "is_dangerous_root resolve target home =
     (case resolve target of
        None \<Rightarrow> False
      | Some resolved \<Rightarrow> resolved = [] \<or> resolved = home)"

section \<open>The Execution Engine\<close>

text \<open>The lines the program prints, and the state of the loop of lines 161 to 176.\<close>

datatype event =
    Match ustring | NoMatches | Scanned nat | NothingToRename | DryRunBanner
  | Skip path path | Renamed path path | Failed path error | DryRun path path
  | Summary nat nat nat nat nat | DryRunReminder | NotADirectory path | Refusing path

record run_state =
  disk :: filesystem
  collisions :: nat
  errors :: nat
  renamed :: nat
  printed :: "event list"

definition say :: "event \<Rightarrow> run_state \<Rightarrow> run_state" where
  "say e st = st\<lparr>printed := printed st @ [e]\<rparr>"

fun execute :: "bool \<Rightarrow> (path \<times> path) list \<Rightarrow> run_state \<Rightarrow> run_state" where
  "execute do_apply [] st = st"
| "execute do_apply ((src, dst) # rest) st =
     (if exists (disk st) dst \<and> dst \<noteq> src
      then execute do_apply rest (say (Skip src dst) (st\<lparr>collisions := collisions st + 1\<rparr>))
      else if do_apply then
        (case rename (disk st) src dst of
           Inr fs' \<Rightarrow>
             execute do_apply rest
               (say (Renamed src dst) (st\<lparr>disk := fs', renamed := renamed st + 1\<rparr>))
         | Inl e \<Rightarrow>
             execute do_apply rest (say (Failed src e) (st\<lparr>errors := errors st + 1\<rparr>)))
      else execute do_apply rest (say (DryRun src dst) st))"

section \<open>The program\<close>

text \<open>
  The arguments after \<^verbatim>\<open>parse_args\<close> and \<^verbatim>\<open>prompt_if_missing\<close>, which only collect them,
  and what the program takes from its environment: path resolution (with
  \<^verbatim>\<open>expanduser\<close>), the home directory, and the two Unicode tables.
\<close>

record args =
  target :: path
  phrase :: ustring
  mode :: string
  replacement :: ustring
  ignore_case :: bool
  recursive :: bool
  apply_arg :: bool
  force :: bool
  loose :: bool
  list_matches :: bool

record env =
  path_resolve :: "path \<Rightarrow> path option"
  home_dir :: path
  unicode_nfkc :: "ustring \<Rightarrow> ustring"
  unicode_ceq :: "uchar \<Rightarrow> uchar \<Rightarrow> bool"

datatype outcome = Exit nat | Raised error | Returned

text \<open>The pre-pass of lines 137 to 145: one line per file name the pattern matches.\<close>

definition list_pass :: "env \<Rightarrow> pattern \<Rightarrow> path list \<Rightarrow> event list" where
  "list_pass E pat ps =
     (let ms = filter (\<lambda>p. pattern_search (unicode_ceq E) pat (path_name p)) ps
      in if ms = [] then [NoMatches] else map (\<lambda>p. Match (path_name p)) ms)"

text \<open>
  \<^verbatim>\<open>main\<close> (lines 120 to 186), from line 124 on: the outcome, and the state with the file
  system as the run leaves it. The part behind the Safety Gate (lines 134 to 186) is a
  function of its own.
\<close>

definition initial :: "filesystem \<Rightarrow> run_state" where
  "initial fs = \<lparr>disk = fs, collisions = 0, errors = 0, renamed = 0, printed = []\<rparr>"

definition plan_and_execute :: "env \<Rightarrow> args \<Rightarrow> filesystem \<Rightarrow> path \<Rightarrow> outcome \<times> run_state" where
  "plan_and_execute E a fs root =
     (let pat = build_pattern (unicode_nfkc E) (phrase a) (ignore_case a) (loose a);
          st1 = (if list_matches a
                 then (initial fs)\<lparr>printed := list_pass E pat (iter_files fs root (recursive a))\<rparr>
                 else initial fs)
      in case collect_changes (unicode_ceq E) fs root (recursive a) pat (mode a) (replacement a) of
           Inl e \<Rightarrow> (Raised e, st1)
         | Inr (changes, total_checked) \<Rightarrow>
             let st2 = say (Scanned total_checked) st1 in
             if changes = [] then (Returned, say NothingToRename st2)
             else
               let st3 = (if \<not> apply_arg a then say DryRunBanner st2 else st2);
                   st4 = execute (apply_arg a) changes st3;
                   changed_if_apply = (if apply_arg a then renamed st4
                                       else length changes - collisions st4);
                   st5 = say (Summary total_checked (length changes) changed_if_apply
                                (collisions st4) (errors st4)) st4
               in (Returned, if \<not> apply_arg a then say DryRunReminder st5 else st5))"

definition main :: "env \<Rightarrow> args \<Rightarrow> filesystem \<Rightarrow> outcome \<times> run_state" where
  "main E a fs =
     (case path_resolve E (target a) of
        None \<Rightarrow> (Raised ResolveError, initial fs)
      | Some root \<Rightarrow>
          if \<not> is_dir fs root then (Exit 1, say (NotADirectory root) (initial fs))
          else case path_resolve E (home_dir E) of
            None \<Rightarrow> (Raised ResolveError, initial fs)
          | Some home \<Rightarrow>
              if is_dangerous_root (path_resolve E) root home \<and> \<not> force a
              then (Exit 2, say (Refusing root) (initial fs))
              else plan_and_execute E a fs root)"

section \<open>The Normalizer, as the specification words it\<close>

text \<open>
  The four steps of the specification, over the set of characters that count as spacing:
  replace each of them by a space, collapse runs of two or more spaces, remove a space
  immediately before a period, strip the white space at both ends.
\<close>

definition to_spaces :: "(uchar \<Rightarrow> bool) \<Rightarrow> ustring \<Rightarrow> ustring" where
  "to_spaces spacing s = map (\<lambda>c. if spacing c then 32 else c) s"

fun squeeze :: "ustring \<Rightarrow> ustring" where
  "squeeze (c # d # r) = (if c = 32 \<and> d = 32 then squeeze (d # r) else c # squeeze (d # r))"
| "squeeze s = s"

fun undot :: "ustring \<Rightarrow> ustring" where
  "undot (c # d # r) = (if c = 32 \<and> d = 46 then undot (d # r) else c # undot (d # r))"
| "undot s = s"

definition spec_normalizer :: "(uchar \<Rightarrow> bool) \<Rightarrow> ustring \<Rightarrow> ustring" where
  "spec_normalizer spacing s = strip (undot (squeeze (to_spaces spacing s)))"

text \<open>The spacing characters the specification lists: U+0020, U+00A0 and U+202F.\<close>

definition listed_spacing :: "uchar \<Rightarrow> bool" where
  "listed_spacing c \<longleftrightarrow> c \<in> set [32, 160, 8239]"

section \<open>Properties of the matcher and of the Normalizer\<close>

lemma plain_SpacesClass: "plain SpacesClass = isspace"
  by (auto simp: fun_eq_iff isspace_def)

lemma plain_Whitespace: "plain Whitespace = isspace"
  by (auto simp: fun_eq_iff)

lemma match_lens_AtLeast_single:
  "match_lens M [AtLeast m a] s = rev [m ..< Suc (length (takeWhile (M a) s))]"
  by (simp add: rev_map del: upt_Suc)

lemma first_match_AtLeast_single:
  "first_match M [AtLeast m a] False s =
     (if m \<le> length (takeWhile (M a) s) then Some (length (takeWhile (M a) s)) else None)"
  unfolding first_match_def match_lens_AtLeast_single by simp

lemma first_match_no_match: "match_lens M ps s = [] \<Longrightarrow> first_match M ps adv s = None"
  by (simp add: first_match_def)

lemma re_sub_no_match: "\<not> search M ps s \<Longrightarrow> re_sub M ps repl adv s = s"
proof (induction s arbitrary: adv)
  case Nil
  then show ?case by (simp add: re_sub.simps first_match_no_match)
next
  case (Cons c cs)
  then show ?case by (simp add: re_sub.simps [of _ _ _ _ "c # cs"] first_match_no_match)
qed

lemma sub_space_runs_Nil: "sub_space_runs [] = []"
  by (simp add: sub_space_runs_def re_sub.simps first_match_AtLeast_single)

lemma sub_space_runs_Cons:
  "sub_space_runs (c # cs) =
     (if isspace c then 32 # sub_space_runs (dropWhile isspace cs) else c # sub_space_runs cs)"
  by (simp add: sub_space_runs_def re_sub.simps [of _ _ _ _ "c # cs"] first_match_AtLeast_single
      plain_SpacesClass dropWhile_eq_drop)

text \<open>Every white-space character is a space, and stands alone.\<close>

fun spaced :: "ustring \<Rightarrow> bool" where
  "spaced [] = True"
| "spaced [c] = (isspace c \<longrightarrow> c = 32)"
| "spaced (c # d # r) = ((isspace c \<longrightarrow> c = 32 \<and> \<not> isspace d) \<and> spaced (d # r))"

text \<open>Moreover no space stands before a period.\<close>

fun tidy :: "ustring \<Rightarrow> bool" where
  "tidy [] = True"
| "tidy [c] = (isspace c \<longrightarrow> c = 32)"
| "tidy (c # d # r) = ((isspace c \<longrightarrow> c = 32 \<and> \<not> isspace d \<and> d \<noteq> 46) \<and> tidy (d # r))"

lemma sub_space_runs_hd:
  "\<not> isspace c \<Longrightarrow> sub_space_runs (c # cs) = c # sub_space_runs cs"
  by (simp add: sub_space_runs_Cons)

lemma spaced_Cons: "spaced (c # s) \<longleftrightarrow> (isspace c \<longrightarrow> c = 32 \<and> (s = [] \<or> \<not> isspace (hd s))) \<and> spaced s"
  by (cases s) auto

lemma tidy_Cons: "tidy (c # s) \<longleftrightarrow>
    (isspace c \<longrightarrow> c = 32 \<and> (s = [] \<or> (\<not> isspace (hd s) \<and> hd s \<noteq> 46))) \<and> tidy s"
  by (cases s) auto

lemma tidy_spaced: "tidy s \<Longrightarrow> spaced s"
  by (induction s rule: tidy.induct) auto

lemma sub_space_runs_hd_nonspace:
  "s \<noteq> [] \<Longrightarrow> \<not> isspace (hd s) \<Longrightarrow> sub_space_runs s \<noteq> [] \<and> hd (sub_space_runs s) = hd s"
  by (cases s) (auto simp: sub_space_runs_Cons)

lemma dropWhile_hd: "dropWhile P s \<noteq> [] \<Longrightarrow> \<not> P (hd (dropWhile P s))"
  by (simp add: hd_dropWhile)

lemma spaced_sub_space_runs: "spaced (sub_space_runs s)"
proof (induction s rule: length_induct)
  case (1 s)
  show ?case
  proof (cases s)
    case Nil
    then show ?thesis by (simp add: sub_space_runs_Nil)
  next
    case (Cons c cs)
    show ?thesis
    proof (cases "isspace c")
      case True
      let ?t = "dropWhile isspace cs"
      have len: "length ?t < length s" using Cons length_dropWhile_le [of isspace cs] by simp
      have sp: "spaced (sub_space_runs ?t)" using 1 len by blast
      have "sub_space_runs ?t = [] \<or> \<not> isspace (hd (sub_space_runs ?t))"
      proof (cases "?t = []")
        case True
        have "sub_space_runs ?t = []" unfolding True by (rule sub_space_runs_Nil)
        then show ?thesis by blast
      next
        case False
        then have "\<not> isspace (hd ?t)" by (rule dropWhile_hd)
        then show ?thesis using sub_space_runs_hd_nonspace [OF False] by simp
      qed
      then show ?thesis using Cons True sp by (simp add: sub_space_runs_Cons spaced_Cons)
    next
      case False
      have "spaced (sub_space_runs cs)" using 1 Cons by simp
      then show ?thesis using Cons False by (simp add: sub_space_runs_Cons spaced_Cons)
    qed
  qed
qed

lemma filter_dropWhile_not: "filter (\<lambda>c. \<not> P c) (dropWhile P s) = filter (\<lambda>c. \<not> P c) s"
  by (induction s) auto

lemma sub_space_runs_content:
  "filter (\<lambda>c. \<not> isspace c) (sub_space_runs s) = filter (\<lambda>c. \<not> isspace c) s"
proof (induction s rule: length_induct)
  case (1 s)
  show ?case
  proof (cases s)
    case Nil
    then show ?thesis by (simp add: sub_space_runs_Nil)
  next
    case (Cons c cs)
    have len: "length (dropWhile isspace cs) < length s"
      using Cons length_dropWhile_le [of isspace cs] by simp
    have a: "filter (\<lambda>c. \<not> isspace c) (sub_space_runs (dropWhile isspace cs))
        = filter (\<lambda>c. \<not> isspace c) cs"
      using 1 len filter_dropWhile_not [of isspace cs] by simp
    have b: "filter (\<lambda>c. \<not> isspace c) (sub_space_runs cs) = filter (\<lambda>c. \<not> isspace c) cs"
      using 1 Cons by simp
    have sp: "isspace 32" by (simp add: isspace_def)
    show ?thesis using Cons a b sp by (simp add: sub_space_runs_Cons)
  qed
qed

lemma spaced_sub_space_runs_id: "spaced s \<Longrightarrow> sub_space_runs s = s"
proof (induction s)
  case Nil
  then show ?case by (simp add: sub_space_runs_Nil)
next
  case (Cons c cs)
  then have cs: "sub_space_runs cs = cs" by (simp add: spaced_Cons)
  show ?case
  proof (cases "isspace c")
    case True
    with Cons.prems have "c = 32" and "cs = [] \<or> \<not> isspace (hd cs)" by (auto simp: spaced_Cons)
    then have "dropWhile isspace cs = cs" by (cases cs) auto
    then show ?thesis using True cs \<open>c = 32\<close> by (simp add: sub_space_runs_Cons)
  next
    case False
    then show ?thesis using cs by (simp add: sub_space_runs_Cons)
  qed
qed

lemma spaced_takeWhile: "spaced s \<Longrightarrow> length (takeWhile isspace s) \<le> 1"
  by (cases s) (auto simp: spaced_Cons takeWhile_eq_Nil_iff intro: hd_in_set
                   simp del: spaced.simps)

lemma spaced_no_double: "spaced s \<Longrightarrow> \<not> search plain [AtLeast 2 Whitespace] s"
proof (induction s)
  case Nil
  then show ?case by (simp add: match_lens_AtLeast_single del: match_lens.simps)
next
  case (Cons c cs)
  have "length (takeWhile isspace (c # cs)) \<le> 1" using Cons.prems by (rule spaced_takeWhile)
  then have "match_lens plain [AtLeast 2 Whitespace] (c # cs) = []"
    by (simp add: match_lens_AtLeast_single plain_Whitespace del: match_lens.simps)
  moreover have "\<not> search plain [AtLeast 2 Whitespace] cs"
    using Cons by (simp add: spaced_Cons)
  ultimately show ?case by simp
qed

lemma spaced_sub_double_spaces: "spaced s \<Longrightarrow> sub_double_spaces s = s"
  unfolding sub_double_spaces_def by (rule re_sub_no_match) (rule spaced_no_double)


lemma match_dot_nonspace:
  "\<not> isspace c \<Longrightarrow> match_lens plain [AtLeast 1 Whitespace, Once (Literal 46)] (c # cs) = []"
  by (simp add: plain_Whitespace)

lemma match_dot_Nil: "match_lens plain [AtLeast 1 Whitespace, Once (Literal 46)] [] = []"
  by simp

lemma match_dot_space:
  "isspace c \<Longrightarrow> cs = [] \<or> \<not> isspace (hd cs) \<Longrightarrow>
   match_lens plain [AtLeast 1 Whitespace, Once (Literal 46)] (c # cs) =
     (if cs \<noteq> [] \<and> hd cs = 46 then [2] else [])"
proof -
  assume c: "isspace c" and cs: "cs = [] \<or> \<not> isspace (hd cs)"
  have tw: "takeWhile (plain Whitespace) (c # cs) = [c]"
    using c cs by (cases cs) (simp_all add: plain_Whitespace)
  have "match_lens plain [AtLeast 1 Whitespace, Once (Literal 46)] (c # cs) =
      map Suc (match_lens plain [Once (Literal 46)] cs)"
    unfolding match_lens.simps(4) tw by simp
  then show ?thesis by (cases cs) auto
qed

lemma sub_space_dot_Nil: "sub_space_dot [] = []"
  by (simp add: sub_space_dot_def re_sub.simps first_match_no_match)

lemma sub_space_dot_nonspace: "\<not> isspace c \<Longrightarrow> sub_space_dot (c # cs) = c # sub_space_dot cs"
  unfolding sub_space_dot_def
  by (subst re_sub.simps) (simp add: first_match_no_match [OF match_dot_nonspace] del: One_nat_def)

lemma sub_space_dot_space_dot:
  assumes "isspace c"
  shows "sub_space_dot (c # 46 # r) = 46 # sub_space_dot r"
proof -
  have "\<not> isspace 46" by (simp add: isspace_def)
  then have "match_lens plain [AtLeast 1 Whitespace, Once (Literal 46)] (c # 46 # r) = [2]"
    using match_dot_space [OF assms, of "46 # r"] by simp
  then have "first_match plain [AtLeast 1 Whitespace, Once (Literal 46)] False (c # 46 # r) = Some (Suc 1)"
    by (simp add: first_match_def)
  then show ?thesis
    unfolding sub_space_dot_def by (subst re_sub.simps) simp
qed

lemma sub_space_dot_space_other:
  assumes "isspace c" and "cs = [] \<or> (\<not> isspace (hd cs) \<and> hd cs \<noteq> 46)"
  shows "sub_space_dot (c # cs) = c # sub_space_dot cs"
proof -
  have "match_lens plain [AtLeast 1 Whitespace, Once (Literal 46)] (c # cs) = []"
    using match_dot_space [OF assms(1), of cs] assms(2) by (auto simp del: match_lens.simps)
  then show ?thesis
    unfolding sub_space_dot_def by (subst re_sub.simps) (simp add: first_match_no_match del: One_nat_def)
qed

lemma sub_space_dot_hd:
  "s \<noteq> [] \<Longrightarrow> \<not> isspace (hd s) \<Longrightarrow> sub_space_dot s \<noteq> [] \<and> hd (sub_space_dot s) = hd s"
  by (cases s) (auto simp: sub_space_dot_nonspace)

lemma spaced_sub_space_dot:
  "spaced s \<Longrightarrow> tidy (sub_space_dot s) \<and>
     filter (\<lambda>c. \<not> isspace c) (sub_space_dot s) = filter (\<lambda>c. \<not> isspace c) s"
proof (induction s rule: length_induct)
  case (1 s)
  note IH = 1(1) and sp = 1(2)
  show ?case
  proof (cases s)
    case Nil
    then show ?thesis by (simp add: sub_space_dot_Nil)
  next
    case (Cons c cs)
    have spcs: "spaced cs" using sp Cons by (simp add: spaced_Cons)
    have ihcs: "tidy (sub_space_dot cs) \<and>
        filter (\<lambda>c. \<not> isspace c) (sub_space_dot cs) = filter (\<lambda>c. \<not> isspace c) cs"
      using IH Cons spcs by simp
    show ?thesis
    proof (cases "isspace c")
      case False
      then show ?thesis using Cons ihcs by (simp add: sub_space_dot_nonspace tidy_Cons)
    next
      case True
      then have c: "c = 32" and nx: "cs = [] \<or> \<not> isspace (hd cs)"
        using sp Cons by (auto simp: spaced_Cons)
      show ?thesis
      proof (cases "cs \<noteq> [] \<and> hd cs = 46")
        case True
        then obtain r where r: "cs = 46 # r" by (cases cs) auto
        have "spaced r" using spcs r by (simp add: spaced_Cons)
        then have ihr: "tidy (sub_space_dot r) \<and>
            filter (\<lambda>c. \<not> isspace c) (sub_space_dot r) = filter (\<lambda>c. \<not> isspace c) r"
          using IH Cons r by simp
        have "\<not> isspace 46" by (simp add: isspace_def)
        then show ?thesis
          using Cons r ihr \<open>isspace c\<close> by (simp add: sub_space_dot_space_dot tidy_Cons)
      next
        case False
        then have oth: "cs = [] \<or> (\<not> isspace (hd cs) \<and> hd cs \<noteq> 46)" using nx by blast
        have eq: "sub_space_dot (c # cs) = c # sub_space_dot cs"
          using \<open>isspace c\<close> oth by (rule sub_space_dot_space_other)
        have "sub_space_dot cs = [] \<or>
            (\<not> isspace (hd (sub_space_dot cs)) \<and> hd (sub_space_dot cs) \<noteq> 46)"
        proof (cases "cs = []")
          case True
          have "sub_space_dot cs = []" unfolding True by (rule sub_space_dot_Nil)
          then show ?thesis by blast
        next
          case False
          then show ?thesis using oth sub_space_dot_hd [of cs] by auto
        qed
        then show ?thesis using Cons eq ihcs c \<open>isspace c\<close> by (simp add: tidy_Cons)
      qed
    qed
  qed
qed

lemma tidy_sub_space_dot: "tidy s \<Longrightarrow> sub_space_dot s = s"
proof (induction s)
  case Nil
  then show ?case by (simp add: sub_space_dot_Nil)
next
  case (Cons c cs)
  then have cs: "sub_space_dot cs = cs" by (simp add: tidy_Cons)
  show ?case
  proof (cases "isspace c")
    case True
    with Cons.prems have "cs = [] \<or> (\<not> isspace (hd cs) \<and> hd cs \<noteq> 46)"
      by (auto simp: tidy_Cons)
    then show ?thesis using True cs by (simp add: sub_space_dot_space_other)
  next
    case False
    then show ?thesis using cs by (simp add: sub_space_dot_nonspace)
  qed
qed

lemma tidy_append: "tidy (a @ b) \<Longrightarrow> tidy a \<and> tidy b"
proof (induction a)
  case Nil
  then show ?case by simp
next
  case (Cons c a)
  then show ?case by (cases a) (auto simp: tidy_Cons simp del: tidy.simps)
qed

lemma strip_split:
  "\<exists>a b. s = a @ strip s @ b \<and> (\<forall>c\<in>set a. isspace c) \<and> (\<forall>c\<in>set b. isspace c)"
proof -
  let ?t = "dropWhile isspace s"
  have 1: "s = takeWhile isspace s @ ?t" by simp
  have "strip s @ rev (takeWhile isspace (rev ?t)) =
      rev (takeWhile isspace (rev ?t) @ dropWhile isspace (rev ?t))"
    by (simp only: strip_def rev_append)
  also have "\<dots> = ?t" by (simp only: takeWhile_dropWhile_id rev_rev_ident)
  finally have 2: "?t = strip s @ rev (takeWhile isspace (rev ?t))" by (rule sym)
  have "s = takeWhile isspace s @ strip s @ rev (takeWhile isspace (rev ?t))"
    using 1 2 by simp
  moreover have "\<forall>c\<in>set (takeWhile isspace s). isspace c" by (auto dest: set_takeWhileD)
  moreover have "\<forall>c\<in>set (rev (takeWhile isspace (rev ?t))). isspace c"
    by (auto dest: set_takeWhileD)
  ultimately show ?thesis by blast
qed

lemma tidy_strip: "tidy s \<Longrightarrow> tidy (strip s)"
proof -
  assume t: "tidy s"
  obtain a b where "s = a @ strip s @ b" using strip_split by blast
  then have "tidy (a @ strip s @ b)" using t by simp
  then show ?thesis using tidy_append by blast
qed

lemma strip_content: "filter (\<lambda>c. \<not> isspace c) (strip s) = filter (\<lambda>c. \<not> isspace c) s"
proof -
  let ?f = "\<lambda>c. \<not> isspace c"
  let ?t = "dropWhile isspace s"
  have "filter ?f (strip s) = rev (filter ?f (dropWhile isspace (rev ?t)))"
    by (simp only: strip_def rev_filter)
  also have "\<dots> = rev (filter ?f (rev ?t))" by (simp only: filter_dropWhile_not)
  also have "\<dots> = filter ?f ?t" by (simp only: rev_filter rev_rev_ident)
  also have "\<dots> = filter ?f s" by (rule filter_dropWhile_not)
  finally show ?thesis .
qed

lemma last_dropWhile_ne: "dropWhile P xs \<noteq> [] \<Longrightarrow> last (dropWhile P xs) = last xs"
  by (induction xs) (auto split: if_splits)

lemma strip_ends: "strip s = [] \<or> (\<not> isspace (hd (strip s)) \<and> \<not> isspace (last (strip s)))"
proof (cases "strip s = []")
  case True
  then show ?thesis by blast
next
  case False
  let ?t = "dropWhile isspace s"
  let ?w = "dropWhile isspace (rev ?t)"
  have w: "?w \<noteq> []" using False by (simp add: strip_def)
  have t: "?t \<noteq> []"
  proof
    assume e: "?t = []"
    show False using w unfolding e by simp
  qed
  have "last (strip s) = hd ?w" using w by (simp add: strip_def last_rev)
  moreover have "\<not> isspace (hd ?w)" using w by (rule hd_dropWhile)
  moreover have "hd (strip s) = last ?w" using w by (simp add: strip_def hd_rev)
  moreover have "last ?w = last (rev ?t)" using w by (rule last_dropWhile_ne)
  moreover have "last (rev ?t) = hd ?t" using t by (simp add: last_rev)
  moreover have "\<not> isspace (hd ?t)" using t by (rule hd_dropWhile)
  ultimately show ?thesis by simp
qed

lemma strip_fix: "s = [] \<or> (\<not> isspace (hd s) \<and> \<not> isspace (last s)) \<Longrightarrow> strip s = s"
proof (cases s)
  case Nil
  then show ?thesis by (simp add: strip_def)
next
  case (Cons c cs)
  assume "s = [] \<or> (\<not> isspace (hd s) \<and> \<not> isspace (last s))"
  then have h: "\<not> isspace (hd s)" and l: "\<not> isspace (last s)" using Cons by auto
  have 1: "dropWhile isspace s = s" using h Cons by simp
  have "s \<noteq> []" using Cons by simp
  then have "rev s = rev (butlast s @ [last s])" by simp
  then have r: "rev s = last s # rev (butlast s)" by simp
  have "dropWhile isspace (last s # rev (butlast s)) = last s # rev (butlast s)"
    using l by simp
  then have 2: "dropWhile isspace (rev s) = rev s" by (simp only: r [symmetric])
  show ?thesis by (simp add: strip_def 1 2)
qed

lemma strip_idem: "strip (strip s) = strip s"
  by (rule strip_fix) (rule strip_ends)

lemma tidy_normalize_spaces: "tidy (normalize_spaces s)"
  unfolding normalize_spaces_def
  by (intro tidy_strip) (simp add: spaced_sub_space_dot spaced_sub_double_spaces spaced_sub_space_runs)

lemma normalize_spaces_fix: "tidy s \<Longrightarrow> strip s = s \<Longrightarrow> normalize_spaces s = s"
  by (simp add: normalize_spaces_def spaced_sub_space_runs_id spaced_sub_double_spaces
      tidy_sub_space_dot tidy_spaced)

lemma normalize_spaces_idem: "normalize_spaces (normalize_spaces s) = normalize_spaces s"
proof (rule normalize_spaces_fix)
  show "tidy (normalize_spaces s)" by (rule tidy_normalize_spaces)
  show "strip (normalize_spaces s) = normalize_spaces s"
    unfolding normalize_spaces_def by (rule strip_idem)
qed

lemma normalize_spaces_content:
  "filter (\<lambda>c. \<not> isspace c) (normalize_spaces s) = filter (\<lambda>c. \<not> isspace c) s"
  by (simp add: normalize_spaces_def strip_content spaced_sub_space_dot spaced_sub_double_spaces
      spaced_sub_space_runs sub_space_runs_content)

lemma tidy_spaces: "tidy s \<Longrightarrow> c \<in> set s \<Longrightarrow> isspace c \<Longrightarrow> c = 32"
  by (induction s rule: tidy.induct) auto

lemma tidy_no_pair: "tidy s \<Longrightarrow> isspace d \<or> d = 46 \<Longrightarrow> \<not> sublist [32, d] s"
proof (induction s rule: tidy.induct)
  case 1
  then show ?case by simp
next
  case (2 c)
  then show ?case by (simp add: sublist_Cons_right)
next
  case (3 c e r)
  have sp: "isspace 32" by (simp add: isspace_def)
  from 3 show ?case using sp by (auto simp: sublist_Cons_right [of _ c])
qed

lemma squeeze_Cons_other: "c \<noteq> 32 \<Longrightarrow> squeeze (c # s) = c # squeeze s"
  by (cases s) auto

lemma squeeze_space_other: "s = [] \<or> hd s \<noteq> 32 \<Longrightarrow> squeeze (32 # s) = 32 # squeeze s"
  by (cases s) auto

lemma squeeze_space_run:
  "\<forall>c\<in>set ws. isspace c \<Longrightarrow>
   squeeze (32 # to_spaces isspace (ws @ r)) = squeeze (32 # to_spaces isspace r)"
  by (induction ws) (auto simp: to_spaces_def)

lemma sub_space_runs_spec: "sub_space_runs s = squeeze (to_spaces isspace s)"
proof (induction s rule: length_induct)
  case (1 s)
  show ?case
  proof (cases s)
    case Nil
    then show ?thesis by (simp add: sub_space_runs_Nil to_spaces_def)
  next
    case (Cons c cs)
    show ?thesis
    proof (cases "isspace c")
      case True
      let ?t = "dropWhile isspace cs"
      have len: "length ?t < length s" using Cons length_dropWhile_le [of isspace cs] by simp
      have ih: "sub_space_runs ?t = squeeze (to_spaces isspace ?t)" using 1 len by blast
      have "\<forall>x\<in>set (takeWhile isspace cs). isspace x" by (auto dest: set_takeWhileD)
      then have "squeeze (32 # to_spaces isspace (takeWhile isspace cs @ ?t))
          = squeeze (32 # to_spaces isspace ?t)"
        by (rule squeeze_space_run)
      then have a: "squeeze (32 # to_spaces isspace cs) = squeeze (32 # to_spaces isspace ?t)"
        by simp
      have "to_spaces isspace ?t = [] \<or> hd (to_spaces isspace ?t) \<noteq> 32"
      proof (cases "?t = []")
        case True
        then show ?thesis unfolding True by (simp add: to_spaces_def)
      next
        case False
        then have "\<not> isspace (hd ?t)" by (rule hd_dropWhile)
        moreover have "isspace 32" by (simp add: isspace_def)
        ultimately have "hd ?t \<noteq> 32" by auto
        then show ?thesis using False \<open>\<not> isspace (hd ?t)\<close>
          by (cases ?t) (auto simp: to_spaces_def)
      qed
      then have b: "squeeze (32 # to_spaces isspace ?t) = 32 # squeeze (to_spaces isspace ?t)"
        by (rule squeeze_space_other)
      have "to_spaces isspace (c # cs) = 32 # to_spaces isspace cs"
        using True by (simp add: to_spaces_def)
      then show ?thesis using Cons True ih a b by (simp add: sub_space_runs_Cons)
    next
      case False
      moreover have "isspace 32" by (simp add: isspace_def)
      ultimately have ne: "c \<noteq> 32" by auto
      have ih: "sub_space_runs cs = squeeze (to_spaces isspace cs)" using 1 Cons by simp
      have "to_spaces isspace (c # cs) = c # to_spaces isspace cs"
        using False by (simp add: to_spaces_def)
      then show ?thesis using Cons False ih ne
        by (simp add: sub_space_runs_Cons squeeze_Cons_other)
    qed
  qed
qed

lemma undot_Cons_other: "c \<noteq> 32 \<Longrightarrow> undot (c # s) = c # undot s"
  by (cases s) auto

lemma undot_space_other: "s = [] \<or> hd s \<noteq> 46 \<Longrightarrow> undot (c # s) = c # undot s"
  by (cases s) auto

lemma sub_space_dot_spec: "spaced s \<Longrightarrow> sub_space_dot s = undot s"
proof (induction s rule: length_induct)
  case (1 s)
  note IH = 1(1) and sp = 1(2)
  have s32: "isspace 32" by (simp add: isspace_def)
  show ?case
  proof (cases s)
    case Nil
    then show ?thesis by (simp add: sub_space_dot_Nil)
  next
    case (Cons c cs)
    have spcs: "spaced cs" using sp Cons by (simp add: spaced_Cons)
    have ihcs: "sub_space_dot cs = undot cs" using IH Cons spcs by simp
    show ?thesis
    proof (cases "isspace c")
      case False
      then have "c \<noteq> 32" using s32 by auto
      then show ?thesis using Cons ihcs False
        by (simp add: sub_space_dot_nonspace undot_Cons_other)
    next
      case True
      then have c: "c = 32" and nx: "cs = [] \<or> \<not> isspace (hd cs)"
        using sp Cons by (auto simp: spaced_Cons)
      show ?thesis
      proof (cases "cs \<noteq> [] \<and> hd cs = 46")
        case True
        then obtain r where r: "cs = 46 # r" by (cases cs) auto
        have "undot (46 # r) = 46 # undot r" by (rule undot_Cons_other) simp
        moreover have "spaced r" using spcs r by (simp add: spaced_Cons)
        then have "sub_space_dot r = undot r" using IH Cons r by simp
        ultimately show ?thesis
          using Cons r c \<open>isspace c\<close> by (simp add: sub_space_dot_space_dot)
      next
        case False
        then have oth: "cs = [] \<or> (\<not> isspace (hd cs) \<and> hd cs \<noteq> 46)" using nx by blast
        have "sub_space_dot (c # cs) = c # sub_space_dot cs"
          using \<open>isspace c\<close> oth by (rule sub_space_dot_space_other)
        moreover have "undot (c # cs) = c # undot cs"
          using oth by (intro undot_space_other) blast
        ultimately show ?thesis using Cons ihcs by simp
      qed
    qed
  qed
qed

lemma normalize_spaces_spec: "normalize_spaces name = spec_normalizer isspace name"
proof -
  have sp: "spaced (sub_space_runs name)" by (rule spaced_sub_space_runs)
  have "normalize_spaces name = strip (sub_space_dot (sub_space_runs name))"
    using sp by (simp add: normalize_spaces_def spaced_sub_double_spaces)
  also have "\<dots> = strip (undot (sub_space_runs name))"
    using sp by (simp add: sub_space_dot_spec)
  also have "\<dots> = spec_normalizer isspace name"
    by (simp add: spec_normalizer_def sub_space_runs_spec)
  finally show ?thesis .
qed

text \<open>
  C4, as the specification lists the spacing characters: a tab between two letters is none
  of the three, so the four steps leave it, and the program turns it into a space.
\<close>

theorem normalize_spaces_listed_counterexample:
  "normalize_spaces [97, 9, 98] = [97, 32, 98] \<and>
   spec_normalizer listed_spacing [97, 9, 98] = [97, 9, 98]"
  by (simp add: normalize_spaces_spec spec_normalizer_def to_spaces_def strip_def isspace_def
      listed_spacing_def)

text \<open>
  C4, amended: for every input the Normalizer returns the result of the four steps, taken
  over every white-space character (\<^verbatim>\<open>\s\<close>, which holds the three listed characters and
  also the tab, the line feed, U+3000 and the others of \<open>isspace\<close>). It is a total function
  with no error value.
\<close>

theorem normalize_spaces_refines_spec:
  "normalize_spaces name = spec_normalizer isspace name"
  by (rule normalize_spaces_spec)


section \<open>Properties of the Pattern Builder, of templates and of the Planner\<close>

lemma foldl_snoc_map: "foldl (\<lambda>out ch. out @ [f ch]) acc xs = acc @ map f xs"
  by (induction xs arbitrary: acc) auto

lemma pieces_build_pattern_loose:
  "pieces (build_pattern nfkc ph ic True) = map (\<lambda>ch. Once (loose_atom ch)) (nfkc ph)"
  by (simp add: build_pattern_def foldl_snoc_map)

lemma pieces_build_pattern_strict:
  "pieces (build_pattern nfkc ph ic False) = map (\<lambda>ch. Once (Literal ch)) ph"
  by (simp add: build_pattern_def)

lemma ignorecase_build_pattern: "ignorecase (build_pattern nfkc ph ic lo) = ic"
  by (simp add: build_pattern_def Let_def)

lemma match_lens_Once:
  "match_lens M (map Once as) s =
     (if length as \<le> length s \<and> list_all2 M as (take (length as) s) then [length as] else [])"
proof (induction as arbitrary: s)
  case Nil
  then show ?case by simp
next
  case (Cons a as)
  show ?case
  proof (cases s)
    case Nil
    then show ?thesis by simp
  next
    case (Cons c cs)
    then show ?thesis using Cons.IH [of cs] by simp
  qed
qed

lemma parse_template_plain: "92 \<notin> set rp \<Longrightarrow> parse_template rp = Inr (map TChar rp)"
  by (induction rp) (auto simp: parse_template.simps(2) prepend_def)

lemma expand_template_plain: "expand_template (map TChar rp) m = rp"
  by (induction rp) (auto simp: expand_template_def)

lemma pattern_sub_plain:
  "92 \<notin> set rp \<Longrightarrow>
   pattern_sub ceq pat rp s = Inr (re_sub (atom_matches ceq (ignorecase pat)) (pieces pat) (\<lambda>_. rp) False s)"
  by (simp add: pattern_sub_def parse_template_plain expand_template_plain [abs_def])

lemma pattern_sub_no_match:
  "\<not> pattern_search ceq pat s \<Longrightarrow> parse_template rp = Inr t \<Longrightarrow> pattern_sub ceq pat rp s = Inr s"
  by (simp add: pattern_sub_def pattern_search_def re_sub_no_match)

lemma propose_no_match:
  assumes "\<not> pattern_search ceq pat nm"
    and "parse_template (if md = ''delete'' then [] else rp) = Inr t"
  shows "propose_new_name ceq nm pat md rp = Inr (normalize_spaces nm)"
  using assms by (simp add: propose_new_name_def pattern_sub_no_match)

lemma propose_result:
  assumes "propose_new_name ceq old pat md rp = Inr nm"
  shows "normalize_spaces nm = nm \<and> (\<exists>t. parse_template (if md = ''delete'' then [] else rp) = Inr t)"
  using assms
  by (auto simp: propose_new_name_def pattern_sub_def normalize_spaces_idem split: sum.splits)

lemma collect_loop_unchanged:
  "\<forall>p\<in>set ps. propose_new_name ceq (path_name p) pat md rp = Inr (path_name p) \<Longrightarrow>
   collect_loop ceq pat md rp ps acc tot = Inr (acc, tot + length ps)"
  by (induction ps arbitrary: acc tot) auto

text \<open>Evaluation of the program on concrete inputs unfolds these equations.\<close>

lemmas eval_simps = propose_new_name_def pattern_sub_def pattern_search_def build_pattern_def
  parse_template.simps(2) prepend_def expand_template_def re_sub.simps first_match_def ustr_def
  normalize_spaces_spec spec_normalizer_def to_spaces_def strip_def isspace_def loose_atom_def HYPHENS_def
  isdigit_def isoctdigit_def isasciiletter_def ESCAPES_def

text \<open>
  C10: in replace mode with an empty replacement text the proposed name is the one of delete
  mode, whatever replacement text delete mode is given.
\<close>

theorem propose_replace_empty_is_delete:
  "propose_new_name ceq nm pat ''replace'' [] = propose_new_name ceq nm pat ''delete'' rp"
  by (simp add: propose_new_name_def)

text \<open>
  C2, evaluated where it fails: the replacement text is not substituted verbatim. For the
  name \<^verbatim>\<open>a-b\<close> and the phrase \<^verbatim>\<open>-\<close>, the replacement \<^verbatim>\<open>\g<0>\<close> is expanded to the
  matched text and the name stays \<^verbatim>\<open>a-b\<close>; the replacement \<^verbatim>\<open>\n\<close> becomes a line feed
  (which the Normalizer then turns into a space); the replacement of a single backslash
  raises.
\<close>

theorem replacement_read_as_template:
  "propose_new_name (=) (ustr ''a-b'') (build_pattern id (ustr ''-'') False False) ''replace''
     (92 # ustr ''g<0>'') = Inr (ustr ''a-b'') \<and>
   propose_new_name (=) (ustr ''a-b'') (build_pattern id (ustr ''-'') False False) ''replace''
     (92 # ustr ''n'') = Inr (ustr ''a b'') \<and>
   propose_new_name (=) (ustr ''a-b'') (build_pattern id (ustr ''-'') False False) ''replace''
     [92] = Inl TemplateError"
  by (simp add: eval_simps)

text \<open>
  C7: when every file in scope bears a name that the planner proposed (for some earlier
  name, under the same pattern, mode and replacement) and that holds no occurrence of the
  phrase, the planner returns an empty plan and counts every file.
\<close>

theorem planner_rerun_no_entries:
  assumes "\<forall>p\<in>set (iter_files fs root rc).
      \<not> pattern_search ceq pat (path_name p) \<and>
      (\<exists>old. propose_new_name ceq old pat md rp = Inr (path_name p))"
  shows "collect_changes ceq fs root rc pat md rp = Inr ([], length (iter_files fs root rc))"
proof -
  have "propose_new_name ceq (path_name p) pat md rp = Inr (path_name p)"
    if "p \<in> set (iter_files fs root rc)" for p
  proof -
    from assms that obtain old where nomatch: "\<not> pattern_search ceq pat (path_name p)"
      and old: "propose_new_name ceq old pat md rp = Inr (path_name p)" by blast
    from propose_result [OF old] obtain t where
      "normalize_spaces (path_name p) = path_name p"
      "parse_template (if md = ''delete'' then [] else rp) = Inr t" by blast
    then show ?thesis using propose_no_match [OF nomatch] by simp
  qed
  then show ?thesis
    unfolding collect_changes_def using collect_loop_unchanged [of "iter_files fs root rc" ceq pat md rp "[]" 0]
    by simp
qed

theorem planner_rerun_no_entries_witness:
  "propose_new_name (=) (ustr ''report  (tag)  .pdf'') (build_pattern id (ustr ''(tag)'') False False)
     ''delete'' [] = Inr (ustr ''report.pdf'') \<and>
   \<not> pattern_search (=) (build_pattern id (ustr ''(tag)'') False False) (ustr ''report.pdf'') \<and>
   collect_changes (=) \<lparr>files = [([ustr ''d'', ustr ''report.pdf''], 0)], dirs = [[ustr ''d'']], denied = []\<rparr>
     [ustr ''d''] False (build_pattern id (ustr ''(tag)'') False False) ''delete'' [] = Inr ([], 1)"
proof -
  let ?pat = "build_pattern id (ustr ''(tag)'') False False"
  let ?fs = "\<lparr>files = [([ustr ''d'', ustr ''report.pdf''], 0::nat)], dirs = [[ustr ''d'']], denied = []\<rparr>"
  have old: "propose_new_name (=) (ustr ''report  (tag)  .pdf'') ?pat ''delete'' [] = Inr (ustr ''report.pdf'')"
    by (simp add: eval_simps)
  have nomatch: "\<not> pattern_search (=) ?pat (ustr ''report.pdf'')" by (simp add: eval_simps)
  have it: "iter_files ?fs [ustr ''d''] False = [[ustr ''d'', ustr ''report.pdf'']]"
    by (simp add: iter_files_def ustr_def)
  have pn: "path_name [ustr ''d'', ustr ''report.pdf''] = ustr ''report.pdf''"
    by (simp add: path_name_def)
  have hyp: "\<forall>p\<in>set (iter_files ?fs [ustr ''d''] False).
      \<not> pattern_search (=) ?pat (path_name p) \<and>
      (\<exists>old. propose_new_name (=) old ?pat ''delete'' [] = Inr (path_name p))"
    unfolding it using old nomatch pn by auto
  from planner_rerun_no_entries [OF hyp] it old nomatch show ?thesis by simp
qed


section \<open>Loose patterns\<close>

text \<open>
  What one character of the normalized phrase asks of the character of the text at its
  position, in a loose pattern: a hyphen of the nine asks for any of the nine, a white-space
  character for any white space, any other character for itself (under the case flag).
\<close>

definition loose_char :: "(uchar \<Rightarrow> uchar \<Rightarrow> bool) \<Rightarrow> bool \<Rightarrow> uchar \<Rightarrow> uchar \<Rightarrow> bool" where
  "loose_char ceq ic ch c =
     (if ch \<in> set HYPHENS then c \<in> set HYPHENS
      else if isspace ch then isspace c
      else if ic then ceq ch c else c = ch)"

lemma atom_matches_loose_atom:
  "atom_matches ceq ic (loose_atom ch) c = loose_char ceq ic ch c"
  by (auto simp: loose_atom_def loose_char_def isspace_def)

lemma match_lens_loose:
  "match_lens (atom_matches ceq ic) (map (\<lambda>ch. Once (loose_atom ch)) p) s =
     (if length p \<le> length s \<and> list_all2 (loose_char ceq ic) p (take (length p) s)
      then [length p] else [])"
proof -
  have "map (\<lambda>ch. Once (loose_atom ch)) p = map Once (map loose_atom p)" by simp
  then show ?thesis
    by (simp only: match_lens_Once) (simp add: list_all2_map1 atom_matches_loose_atom)
qed

text \<open>
  C3, as stated: the class that stands for a space of the phrase matches a tab, which is
  none of the three listed characters; the loose pattern of \<^verbatim>\<open>a b\<close> matches the text of
  \<^verbatim>\<open>a\<close>, tab, \<^verbatim>\<open>b\<close>.
\<close>

theorem loose_space_class_counterexample:
  "pieces (build_pattern id [32] False True) = [Once SpacesClass] \<and>
   atom_matches (=) False SpacesClass 9 \<and> \<not> listed_spacing 9 \<and>
   pattern_search (=) (build_pattern id (ustr ''a b'') False True) [97, 9, 98]"
  by (simp add: eval_simps listed_spacing_def)

text \<open>
  C3, amended: with the loose flag, the pattern is built from the normalized phrase
  character by character, and it matches at the start of a text exactly when the text is
  long enough and, position by position, a hyphen of the nine-element set of the phrase
  meets any character of that set, a white-space character of the phrase meets any
  white-space character (everything \<^verbatim>\<open>\s\<close> accepts, not only the three listed), and any
  other character meets itself, literally or up to case as the flag says. The match has the
  length of the normalized phrase; the flag is kept.
\<close>

theorem loose_pattern_matches:
  "match_lens (atom_matches ceq ic) (pieces (build_pattern nfkc ph ic True)) s =
     (if length (nfkc ph) \<le> length s \<and>
         list_all2 (loose_char ceq ic) (nfkc ph) (take (length (nfkc ph)) s)
      then [length (nfkc ph)] else []) \<and>
   ignorecase (build_pattern nfkc ph ic True) = ic \<and>
   length HYPHENS = 9 \<and> distinct HYPHENS"
  by (simp add: pieces_build_pattern_loose match_lens_loose ignorecase_build_pattern HYPHENS_def)


section \<open>Dash variants\<close>

text \<open>
  A dash variant of a phrase: the phrase with an en dash (U+2013) or an em dash (U+2014) in
  the place of some or all of its hyphen-minus characters.
\<close>

definition dash_variant :: "ustring \<Rightarrow> ustring \<Rightarrow> bool" where
  "dash_variant ph v \<longleftrightarrow> list_all2 (\<lambda>a b. b = a \<or> (a = 45 \<and> b \<in> set [8211, 8212])) ph v"

text \<open>
  What the proofs need of the comparison without regard to case: a character matches itself,
  and a hyphen or a white-space character, having no case, matches no other character.
\<close>

definition case_folding :: "(uchar \<Rightarrow> uchar \<Rightarrow> bool) \<Rightarrow> bool" where
  "case_folding ceq \<longleftrightarrow>
     (\<forall>x. ceq x x) \<and>
     (\<forall>x c. ceq x c \<longrightarrow> x \<in> set HYPHENS \<or> isspace x \<or> c \<in> set HYPHENS \<or> isspace c \<longrightarrow> x = c)"

text \<open>The comparison on ASCII letters, an instance for concrete inputs.\<close>

definition ascii_lower :: "uchar \<Rightarrow> uchar" where
  "ascii_lower c = (if 65 \<le> c \<and> c \<le> 90 then c + 32 else c)"

definition ascii_ceq :: "uchar \<Rightarrow> uchar \<Rightarrow> bool" where
  "ascii_ceq x c \<longleftrightarrow> ascii_lower x = ascii_lower c"

text \<open>Two characters that are equal, or both a hyphen-minus, an en dash or an em dash.\<close>

definition dash_eq :: "uchar \<Rightarrow> uchar \<Rightarrow> bool" where
  "dash_eq a b \<longleftrightarrow> a = b \<or> (a \<in> set [45, 8211, 8212] \<and> b \<in> set [45, 8211, 8212])"

lemma case_folding_ascii_ceq: "case_folding ascii_ceq"
  unfolding case_folding_def ascii_ceq_def ascii_lower_def HYPHENS_def isspace_def
  by (auto split: if_splits)

lemma search_iff: "search M ps s \<longleftrightarrow> (\<exists>i\<le>length s. match_lens M ps (drop i s) \<noteq> [])"
proof (induction s)
  case Nil
  then show ?case by simp
next
  case (Cons c cs)
  show ?case
  proof
    assume "search M ps (c # cs)"
    then consider "match_lens M ps (c # cs) \<noteq> []" | "search M ps cs" by auto
    then show "\<exists>i\<le>length (c # cs). match_lens M ps (drop i (c # cs)) \<noteq> []"
    proof cases
      case 1
      then have "match_lens M ps (drop 0 (c # cs)) \<noteq> []" by simp
      then show ?thesis by blast
    next
      case 2
      then obtain i where "i \<le> length cs" "match_lens M ps (drop i cs) \<noteq> []"
        using Cons.IH by blast
      then have "Suc i \<le> length (c # cs) \<and> match_lens M ps (drop (Suc i) (c # cs)) \<noteq> []"
        by simp
      then show ?thesis by blast
    qed
  next
    assume "\<exists>i\<le>length (c # cs). match_lens M ps (drop i (c # cs)) \<noteq> []"
    then obtain i where i: "i \<le> length (c # cs)" "match_lens M ps (drop i (c # cs)) \<noteq> []"
      by blast
    show "search M ps (c # cs)"
    proof (cases i)
      case 0
      then show ?thesis using i by simp
    next
      case (Suc j)
      then have "j \<le> length cs" "match_lens M ps (drop j cs) \<noteq> []" using i by simp_all
      then have "search M ps cs" using Cons.IH by blast
      then show ?thesis by simp
    qed
  qed
qed

lemma re_sub_skip_prefix:
  "\<forall>i<length pre. match_lens M ps (drop i (pre @ rest)) = [] \<Longrightarrow>
   re_sub M ps repl False (pre @ rest) = pre @ re_sub M ps repl False rest"
proof (induction pre)
  case Nil
  then show ?case by simp
next
  case (Cons c pre)
  have "match_lens M ps (drop 0 ((c # pre) @ rest)) = []" using Cons.prems by blast
  then have none: "first_match M ps False (c # pre @ rest) = None"
    by (simp add: first_match_no_match)
  have "\<forall>i<length pre. match_lens M ps (drop i (pre @ rest)) = []"
  proof (intro allI impI)
    fix i assume "i < length pre"
    then have "Suc i < length (c # pre)" by simp
    then have "match_lens M ps (drop (Suc i) ((c # pre) @ rest)) = []" using Cons.prems by blast
    then show "match_lens M ps (drop i (pre @ rest)) = []" by simp
  qed
  then have ih: "re_sub M ps repl False (pre @ rest) = pre @ re_sub M ps repl False rest"
    by (rule Cons.IH)
  show ?case
    by (subst re_sub.simps) (simp add: none ih)
qed

lemma re_sub_match_here:
  "first_match M ps False s = Some (Suc k) \<Longrightarrow>
   re_sub M ps repl False s = repl (take (Suc k) s) @ re_sub M ps repl False (drop (Suc k) s)"
  by (subst re_sub.simps) simp

lemma dash_variant_length: "dash_variant ph v \<Longrightarrow> length v = length ph"
  by (auto simp: dash_variant_def dest: list_all2_lengthD)

lemma loose_char_dash:
  assumes "ic \<longrightarrow> case_folding ceq" and "a \<in> set [45, 8211, 8212]" and "b \<in> set [45, 8211, 8212]"
  shows "loose_char ceq ic ch a = loose_char ceq ic ch b"
proof -
  have ha: "a \<in> set HYPHENS" and hb: "b \<in> set HYPHENS" using assms(2,3) by (auto simp: HYPHENS_def)
  have sa: "\<not> isspace a" and sb: "\<not> isspace b" using assms(2,3) by (auto simp: isspace_def)
  show ?thesis
  proof (cases "ch \<in> set HYPHENS \<or> isspace ch")
    case True
    then show ?thesis using ha hb sa sb by (auto simp: loose_char_def)
  next
    case False
    then have "a \<noteq> ch" "b \<noteq> ch" using ha hb by auto
    moreover have "\<not> ceq ch a" "\<not> ceq ch b" if ic
      using that assms(1) ha hb False unfolding case_folding_def by blast+
    ultimately show ?thesis using False by (auto simp: loose_char_def)
  qed
qed

lemma loose_char_self:
  assumes "ic \<longrightarrow> case_folding ceq"
  shows "loose_char ceq ic ch ch"
  using assms by (auto simp: loose_char_def case_folding_def)

lemma dash_variant_loose:
  assumes "ic \<longrightarrow> case_folding ceq" and "dash_variant ph v"
  shows "list_all2 (loose_char ceq ic) ph v"
proof -
  have "loose_char ceq ic a b" if "b = a \<or> (a = 45 \<and> b \<in> set [8211, 8212])" for a b
  proof (cases "b = a")
    case True
    then show ?thesis using loose_char_self [OF assms(1)] by simp
  next
    case False
    then have "a \<in> set [45, 8211, 8212]" "b \<in> set [45, 8211, 8212]" using that by auto
    then have "loose_char ceq ic a b = loose_char ceq ic a a"
      using loose_char_dash [OF assms(1)] by blast
    then show ?thesis using loose_char_self [OF assms(1)] by simp
  qed
  then show ?thesis
    using assms(2) unfolding dash_variant_def by (auto elim: list_all2_mono)
qed

lemma match_lens_loose_dash_eq:
  assumes "ic \<longrightarrow> case_folding ceq" and "list_all2 dash_eq s s'"
  shows "match_lens (atom_matches ceq ic) (map (\<lambda>ch. Once (loose_atom ch)) p) s =
         match_lens (atom_matches ceq ic) (map (\<lambda>ch. Once (loose_atom ch)) p) s'"
  using assms(2)
proof (induction p arbitrary: s s')
  case Nil
  then show ?case by simp
next
  case (Cons ch p)
  show ?case
  proof (cases s)
    case Nil
    then have "s' = []" using Cons.prems by simp
    then show ?thesis using Nil by simp
  next
    case (Cons a r)
    then obtain b r' where s': "s' = b # r'" and ab: "dash_eq a b" and rr: "list_all2 dash_eq r r'"
      using Cons.prems by (auto simp: list_all2_Cons1)
    have "loose_char ceq ic ch a = loose_char ceq ic ch b"
      using ab loose_char_dash [OF assms(1)] unfolding dash_eq_def by blast
    then show ?thesis
      using Cons s' Cons.IH [OF rr] by (simp add: atom_matches_loose_atom)
  qed
qed

lemma dash_variants_dash_eq:
  assumes "dash_variant ph v1" and "dash_variant ph v2"
  shows "list_all2 dash_eq v1 v2"
proof -
  have l1: "length v1 = length ph" and l2: "length v2 = length ph"
    using assms by (simp_all add: dash_variant_length)
  have "dash_eq (v1 ! i) (v2 ! i)" if "i < length ph" for i
  proof -
    have "v1 ! i = ph ! i \<or> (ph ! i = 45 \<and> v1 ! i \<in> set [8211, 8212])"
      using assms(1) that unfolding dash_variant_def by (auto dest: list_all2_nthD)
    moreover have "v2 ! i = ph ! i \<or> (ph ! i = 45 \<and> v2 ! i \<in> set [8211, 8212])"
      using assms(2) that unfolding dash_variant_def by (auto dest: list_all2_nthD)
    ultimately show ?thesis unfolding dash_eq_def by auto
  qed
  then show ?thesis using l1 l2 by (simp add: list_all2_conv_all_nth)
qed

lemma dash_eq_names:
  assumes "dash_variant ph v1" and "dash_variant ph v2"
  shows "list_all2 dash_eq (pre @ v1 @ post) (pre @ v2 @ post)"
proof -
  have refl: "list_all2 dash_eq xs xs" for xs
    by (simp add: list_all2_conv_all_nth dash_eq_def)
  show ?thesis
    by (intro list_all2_appendI refl dash_variants_dash_eq [OF assms])
qed

text \<open>One occurrence, deleted.\<close>

lemma loose_delete_single:
  assumes cf: "ic \<longrightarrow> case_folding ceq" and dv: "dash_variant p v" and ne: "p \<noteq> []"
    and only: "\<forall>i. i \<noteq> length pre \<longrightarrow>
        match_lens (atom_matches ceq ic) (map (\<lambda>ch. Once (loose_atom ch)) p) (drop i (pre @ v @ post)) = []"
  shows "re_sub (atom_matches ceq ic) (map (\<lambda>ch. Once (loose_atom ch)) p) (\<lambda>_. []) False (pre @ v @ post)
         = pre @ post"
proof -
  let ?M = "atom_matches ceq ic" and ?ps = "map (\<lambda>ch. Once (loose_atom ch)) p"
  have lv: "length v = length p" using dv by (rule dash_variant_length)
  obtain k where k: "length p = Suc k" using ne by (cases p) auto
  have skip: "re_sub ?M ?ps (\<lambda>_. []) False (pre @ v @ post) = pre @ re_sub ?M ?ps (\<lambda>_. []) False (v @ post)"
  proof (rule re_sub_skip_prefix, intro allI impI)
    fix i assume "i < length pre"
    then have "i \<noteq> length pre" by simp
    then show "match_lens ?M ?ps (drop i (pre @ v @ post)) = []" using only by blast
  qed
  have "list_all2 (loose_char ceq ic) p (take (length p) (v @ post))"
    using dash_variant_loose [OF cf dv] lv by simp
  then have "match_lens ?M ?ps (v @ post) = [length p]"
    using lv by (simp add: match_lens_loose)
  then have "first_match ?M ?ps False (v @ post) = Some (Suc k)"
    using k by (simp add: first_match_def)
  then have here: "re_sub ?M ?ps (\<lambda>_. []) False (v @ post) =
      re_sub ?M ?ps (\<lambda>_. []) False (drop (Suc k) (v @ post))"
    by (simp add: re_sub_match_here)
  have dr: "drop (Suc k) (v @ post) = post" using lv k by simp
  have "\<not> search ?M ?ps post"
  proof
    assume "search ?M ?ps post"
    then obtain j where "match_lens ?M ?ps (drop j post) \<noteq> []" unfolding search_iff by blast
    moreover have "drop (length pre + length v + j) (pre @ v @ post) = drop j post" by simp
    moreover have "length pre + length v + j \<noteq> length pre" using lv k by simp
    ultimately show False using only by metis
  qed
  then have "re_sub ?M ?ps (\<lambda>_. []) False post = post" by (rule re_sub_no_match)
  then show ?thesis using skip here dr by simp
qed


lemma expand_template_Nil: "expand_template [] = (\<lambda>_. [])"
  by (simp add: fun_eq_iff expand_template_def)

lemma loose_delete_propose:
  assumes nf: "nfkc ph = ph" and cf: "ic \<longrightarrow> case_folding ceq" and dv: "dash_variant ph v"
    and ne: "ph \<noteq> []"
    and only: "\<forall>i. i \<noteq> length pre \<longrightarrow>
        match_lens (atom_matches ceq ic) (pieces (build_pattern nfkc ph ic True))
          (drop i (pre @ v @ post)) = []"
  shows "propose_new_name ceq (pre @ v @ post) (build_pattern nfkc ph ic True) ''delete'' rp
         = Inr (normalize_spaces (pre @ post))"
proof -
  have pc: "pieces (build_pattern nfkc ph ic True) = map (\<lambda>ch. Once (loose_atom ch)) ph"
    by (simp add: pieces_build_pattern_loose nf)
  have "re_sub (atom_matches ceq ic) (map (\<lambda>ch. Once (loose_atom ch)) ph) (\<lambda>_. []) False
      (pre @ v @ post) = pre @ post"
    using cf dv ne only [unfolded pc] by (rule loose_delete_single)
  then show ?thesis
    by (simp add: propose_new_name_def pattern_sub_def expand_template_Nil pc
        ignorecase_build_pattern)
qed

lemma strict_implies_loose:
  assumes cf: "ic \<longrightarrow> case_folding ceq"
    and "atom_matches ceq ic (Literal a) c"
  shows "loose_char ceq ic a c"
proof (cases ic)
  case False
  then have "c = a" using assms(2) by simp
  then show ?thesis using loose_char_self [OF cf] by simp
next
  case True
  then have ce: "ceq a c" using assms(2) by simp
  show ?thesis
  proof (cases "a \<in> set HYPHENS \<or> isspace a")
    case True
    then have "a = c" using cf \<open>ic\<close> ce unfolding case_folding_def by blast
    then show ?thesis using loose_char_self [OF cf] by simp
  next
    case False
    then show ?thesis using ce \<open>ic\<close> by (simp add: loose_char_def)
  qed
qed

lemma strict_never_matches_variant:
  assumes nf: "nfkc ph = ph" and cf: "ic \<longrightarrow> case_folding ceq" and dv: "dash_variant ph v"
    and diff: "v \<noteq> ph"
    and only: "\<forall>i. i \<noteq> length pre \<longrightarrow>
        match_lens (atom_matches ceq ic) (pieces (build_pattern nfkc ph ic True))
          (drop i (pre @ v @ post)) = []"
  shows "\<not> pattern_search ceq (build_pattern nfkc ph ic False) (pre @ v @ post)"
proof
  let ?M = "atom_matches ceq ic" and ?name = "pre @ v @ post"
  have pl: "pieces (build_pattern nfkc ph ic True) = map (\<lambda>ch. Once (loose_atom ch)) ph"
    by (simp add: pieces_build_pattern_loose nf)
  have lv: "length v = length ph" using dv by (rule dash_variant_length)
  assume "pattern_search ceq (build_pattern nfkc ph ic False) ?name"
  then have "search ?M (map Once (map Literal ph)) ?name"
    by (simp add: pattern_search_def pieces_build_pattern_strict ignorecase_build_pattern comp_def)
  then obtain i where ne: "match_lens ?M (map Once (map Literal ph)) (drop i ?name) \<noteq> []"
    unfolding search_iff by blast
  define s where "s = drop i ?name"
  have "length (map Literal ph) \<le> length s \<and>
      list_all2 ?M (map Literal ph) (take (length (map Literal ph)) s)"
    using ne unfolding s_def [symmetric] match_lens_Once by (metis (full_types))
  then have len: "length ph \<le> length (drop i ?name)"
    and strict: "list_all2 ?M (map Literal ph) (take (length ph) (drop i ?name))"
    unfolding s_def by simp_all
  from strict have "list_all2 (\<lambda>a c. ?M (Literal a) c) ph (take (length ph) (drop i ?name))"
    by (simp add: list_all2_map1)
  then have "list_all2 (loose_char ceq ic) ph (take (length ph) (drop i ?name))"
    by (rule list_all2_mono) (rule strict_implies_loose [OF cf])
  then have "match_lens ?M (map (\<lambda>ch. Once (loose_atom ch)) ph) (drop i ?name) \<noteq> []"
    using len by (simp add: match_lens_loose)
  then have i: "i = length pre" using only [unfolded pl] by blast
  have lit: "list_all2 (\<lambda>a c. ?M (Literal a) c) ph v"
    using strict lv by (simp add: i list_all2_map1)
  have same: "c = a"
    if "?M (Literal a) c" and "c = a \<or> (a = 45 \<and> c \<in> set [8211, 8212])" for a c
  proof (cases "c = a")
    case True
    then show ?thesis .
  next
    case False
    then have a: "a = 45" and c: "c \<in> set [8211, 8212]" using that(2) by auto
    then have "a \<in> set HYPHENS" by (simp add: HYPHENS_def)
    then have "ic \<Longrightarrow> ceq a c \<Longrightarrow> a = c" using cf unfolding case_folding_def by blast
    then show ?thesis using that(1) by (cases ic) auto
  qed
  have "v ! j = ph ! j" if "j < length ph" for j
  proof (rule same)
    show "?M (Literal (ph ! j)) (v ! j)" using lit that by (rule list_all2_nthD)
    show "v ! j = ph ! j \<or> (ph ! j = 45 \<and> v ! j \<in> set [8211, 8212])"
      using dv that unfolding dash_variant_def by (auto dest: list_all2_nthD)
  qed
  then have "v = ph" using lv by (simp add: list_eq_iff_nth_eq)
  then show False using diff by simp
qed

lemma all_drop_upt:
  "(\<forall>i. i \<noteq> k \<longrightarrow> Q (drop i s)) \<longleftrightarrow>
   Q [] \<and> list_all (\<lambda>i. i = k \<or> Q (drop i s)) [0..<length s]"
proof
  assume a: "\<forall>i. i \<noteq> k \<longrightarrow> Q (drop i s)"
  have "Q (drop (Suc (max k (length s))) s)" using a by (metis Suc_n_not_le_n max.cobounded1)
  then have "Q []" by simp
  then show "Q [] \<and> list_all (\<lambda>i. i = k \<or> Q (drop i s)) [0..<length s]"
    using a by (auto simp: list_all_iff)
next
  assume b: "Q [] \<and> list_all (\<lambda>i. i = k \<or> Q (drop i s)) [0..<length s]"
  show "\<forall>i. i \<noteq> k \<longrightarrow> Q (drop i s)"
  proof (intro allI impI)
    fix i assume "i \<noteq> k"
    show "Q (drop i s)"
    proof (cases "i < length s")
      case True
      then show ?thesis using b \<open>i \<noteq> k\<close> by (auto simp: list_all_iff)
    next
      case False
      then show ?thesis using b by simp
    qed
  qed
qed

text \<open>
  C9, as stated: with the phrase \<^verbatim>\<open>--\<close>, the names \<^verbatim>\<open>x-\<close> + two en dashes + \<^verbatim>\<open>.txt\<close> and
  \<^verbatim>\<open>x-\<close> + two em dashes + \<^verbatim>\<open>.txt\<close> differ only in the dashes of a variant of the phrase,
  yet loose delete proposes different names: the leftmost match takes the hyphen before the
  variant and the first dash of it, and the second dash stays. And non-loose mode matches
  the name \<^verbatim>\<open>x--\<close> + two en dashes + \<^verbatim>\<open>.txt\<close>, which holds a variant of the phrase.
\<close>

theorem dash_variants_overlap_counterexample:
  "dash_variant (ustr ''--'') [8211, 8211] \<and> dash_variant (ustr ''--'') [8212, 8212] \<and>
   propose_new_name (=) (ustr ''x-'' @ [8211, 8211] @ ustr ''.txt'')
     (build_pattern id (ustr ''--'') False True) ''delete'' []
     = Inr (ustr ''x'' @ [8211] @ ustr ''.txt'') \<and>
   propose_new_name (=) (ustr ''x-'' @ [8212, 8212] @ ustr ''.txt'')
     (build_pattern id (ustr ''--'') False True) ''delete'' []
     = Inr (ustr ''x'' @ [8212] @ ustr ''.txt'') \<and>
   pattern_search (=) (build_pattern id (ustr ''--'') False False)
     (ustr ''x--'' @ [8211, 8211] @ ustr ''.txt'')"
  by (simp add: eval_simps dash_variant_def)

text \<open>
  C9, amended: for a non-empty phrase that the normalization leaves unchanged, and file
  names that are the same text around a dash variant of the phrase, where that variant is
  the only loose occurrence of the phrase in the name: loose mode with delete proposes the
  same name for all dash variants, the Normalizer's result for the text around the variant;
  and non-loose mode matches no such name whose variant differs from the phrase. With the
  case flag set this needs that hyphens and white space are caseless for the interpreter.
\<close>

theorem loose_delete_dash_variants:
  assumes "nfkc ph = ph" and "ph \<noteq> []"
    and "dash_variant ph v1" and "dash_variant ph v2"
    and "ic \<longrightarrow> case_folding ceq"
    and "\<forall>i. i \<noteq> length pre \<longrightarrow>
        match_lens (atom_matches ceq ic) (pieces (build_pattern nfkc ph ic True))
          (drop i (pre @ v1 @ post)) = []"
  shows "propose_new_name ceq (pre @ v1 @ post) (build_pattern nfkc ph ic True) ''delete'' rp
           = Inr (normalize_spaces (pre @ post)) \<and>
         propose_new_name ceq (pre @ v2 @ post) (build_pattern nfkc ph ic True) ''delete'' rp
           = Inr (normalize_spaces (pre @ post)) \<and>
         (v1 \<noteq> ph \<longrightarrow> \<not> pattern_search ceq (build_pattern nfkc ph ic False) (pre @ v1 @ post)) \<and>
         (v2 \<noteq> ph \<longrightarrow> \<not> pattern_search ceq (build_pattern nfkc ph ic False) (pre @ v2 @ post))"
proof -
  have pl: "pieces (build_pattern nfkc ph ic True) = map (\<lambda>ch. Once (loose_atom ch)) ph"
    by (simp add: pieces_build_pattern_loose assms(1))
  have only2: "\<forall>i. i \<noteq> length pre \<longrightarrow>
        match_lens (atom_matches ceq ic) (pieces (build_pattern nfkc ph ic True))
          (drop i (pre @ v2 @ post)) = []"
  proof (intro allI impI)
    fix i assume i: "i \<noteq> length pre"
    have "list_all2 dash_eq (drop i (pre @ v1 @ post)) (drop i (pre @ v2 @ post))"
      by (rule list_all2_dropI) (rule dash_eq_names [OF assms(3,4)])
    then have "match_lens (atom_matches ceq ic) (map (\<lambda>ch. Once (loose_atom ch)) ph)
          (drop i (pre @ v1 @ post)) =
        match_lens (atom_matches ceq ic) (map (\<lambda>ch. Once (loose_atom ch)) ph)
          (drop i (pre @ v2 @ post))"
      by (rule match_lens_loose_dash_eq [OF assms(5)])
    then show "match_lens (atom_matches ceq ic) (pieces (build_pattern nfkc ph ic True))
          (drop i (pre @ v2 @ post)) = []"
      using assms(6) i by (simp add: pl)
  qed
  show ?thesis
    using loose_delete_propose [OF assms(1,5,3,2,6)] loose_delete_propose [OF assms(1,5,4,2) only2]
      strict_never_matches_variant [OF assms(1,5,3) _ assms(6)]
      strict_never_matches_variant [OF assms(1,5,4) _ only2]
    by blast
qed

theorem loose_delete_dash_variants_witness:
  "dash_variant (ustr ''(Z-Library)'') (ustr ''(Z'' @ [8211] @ ustr ''Library)'') \<and>
   dash_variant (ustr ''(Z-Library)'') (ustr ''(Z'' @ [8212] @ ustr ''Library)'') \<and>
   case_folding ascii_ceq \<and>
   propose_new_name ascii_ceq (ustr ''Book '' @ (ustr ''(Z'' @ [8211] @ ustr ''Library)'') @ ustr ''.pdf'')
     (build_pattern id (ustr ''(Z-Library)'') True True) ''delete'' [] = Inr (ustr ''Book.pdf'') \<and>
   propose_new_name ascii_ceq (ustr ''Book '' @ (ustr ''(Z'' @ [8212] @ ustr ''Library)'') @ ustr ''.pdf'')
     (build_pattern id (ustr ''(Z-Library)'') True True) ''delete'' [] = Inr (ustr ''Book.pdf'') \<and>
   \<not> pattern_search ascii_ceq (build_pattern id (ustr ''(Z-Library)'') True False)
     (ustr ''Book '' @ (ustr ''(Z'' @ [8211] @ ustr ''Library)'') @ ustr ''.pdf'') \<and>
   \<not> pattern_search ascii_ceq (build_pattern id (ustr ''(Z-Library)'') True False)
     (ustr ''Book '' @ (ustr ''(Z'' @ [8212] @ ustr ''Library)'') @ ustr ''.pdf'')"
proof -
  let ?ph = "ustr ''(Z-Library)''"
  let ?v1 = "ustr ''(Z'' @ [8211] @ ustr ''Library)''"
  let ?v2 = "ustr ''(Z'' @ [8212] @ ustr ''Library)''"
  let ?pre = "ustr ''Book ''" and ?post = "ustr ''.pdf''"
  have h1: "id ?ph = ?ph" by simp
  have h2: "?ph \<noteq> []" by (simp add: ustr_def)
  have h3: "dash_variant ?ph ?v1" by (simp add: dash_variant_def ustr_def)
  have h4: "dash_variant ?ph ?v2" by (simp add: dash_variant_def ustr_def)
  have h5: "True \<longrightarrow> case_folding ascii_ceq" by (simp add: case_folding_ascii_ceq)
  have h6: "\<forall>i. i \<noteq> length ?pre \<longrightarrow>
      match_lens (atom_matches ascii_ceq True) (pieces (build_pattern id ?ph True True))
        (drop i (?pre @ ?v1 @ ?post)) = []"
    by (rule iffD2 [OF all_drop_upt [where Q = "\<lambda>t. match_lens (atom_matches ascii_ceq True)
          (pieces (build_pattern id ?ph True True)) t = []"]])
      (simp add: build_pattern_def ustr_def loose_atom_def HYPHENS_def isspace_def
        ascii_ceq_def ascii_lower_def)
  have n: "normalize_spaces (?pre @ ?post) = ustr ''Book.pdf''"
    by (simp add: eval_simps)
  have d1: "?v1 \<noteq> ?ph" and d2: "?v2 \<noteq> ?ph" by (simp_all add: ustr_def)
  from loose_delete_dash_variants [OF h1 h2 h3 h4 h5 h6, of "[]"] n d1 d2 h3 h4 case_folding_ascii_ceq
  show ?thesis by simp
qed


section \<open>Execution, dry runs and the gate\<close>

lemma disk_say [simp]: "disk (say e st) = disk st"
  and collisions_say [simp]: "collisions (say e st) = collisions st"
  and errors_say [simp]: "errors (say e st) = errors st"
  and renamed_say [simp]: "renamed (say e st) = renamed st"
  and printed_say [simp]: "printed (say e st) = printed st @ [e]"
  by (simp_all add: say_def)






lemma execute_dry_run:
  "execute False changes st =
     st\<lparr>collisions := collisions st +
           length (filter (\<lambda>(src, dst). exists (disk st) dst \<and> dst \<noteq> src) changes),
        printed := printed st @
           map (\<lambda>(src, dst). if exists (disk st) dst \<and> dst \<noteq> src then Skip src dst
                              else DryRun src dst) changes\<rparr>"
proof (induction changes arbitrary: st)
  case Nil
  then show ?case by simp
next
  case (Cons e changes)
  obtain src dst where e: "e = (src, dst)" by (cases e)
  show ?case unfolding e by (simp add: Cons.IH say_def)
qed

lemma disk_plan_dry_run:
  "\<not> apply_arg a \<Longrightarrow>
   disk (snd (plan_and_execute E a fs root)) = fs \<and>
   renamed (snd (plan_and_execute E a fs root)) = 0 \<and>
   errors (snd (plan_and_execute E a fs root)) = 0"
  by (auto simp: plan_and_execute_def Let_def initial_def execute_dry_run split: sum.splits prod.splits)

lemma disk_main_dry_run:
  "\<not> apply_arg a \<Longrightarrow>
   disk (snd (main E a fs)) = fs \<and> renamed (snd (main E a fs)) = 0 \<and> errors (snd (main E a fs)) = 0"
  using disk_plan_dry_run [of a E fs]
  by (auto simp: main_def initial_def split: option.splits)

text \<open>
  Inputs for concrete runs: an environment in which every path resolves to itself, and the
  arguments of a dry run that deletes \<^verbatim>\<open>(tag)\<close> in the directory \<^verbatim>\<open>/d\<close>.
\<close>

definition example_env :: env where
  "example_env = \<lparr>path_resolve = Some, home_dir = [ustr ''home'', ustr ''u''],
     unicode_nfkc = id, unicode_ceq = (=)\<rparr>"

definition example_args :: args where
  "example_args = \<lparr>target = [ustr ''d''], phrase = ustr ''(tag)'', mode = ''delete'',
     replacement = [], ignore_case = False, recursive = False, apply_arg = False,
     force = False, loose = False, list_matches = False\<rparr>"

lemmas run_simps = main_def plan_and_execute_def initial_def list_pass_def collect_changes_def
  iter_files_def path_name_def with_name_def is_dangerous_root_def is_dir_def is_file_def
  exists_def rename_def say_def Let_def example_env_def example_args_def




text \<open>
  C6, as stated: in a dry run an entry whose proposed path exists is reported as a skipped
  collision, not as a preview.
\<close>

theorem dry_run_collision_counterexample:
  "main example_env example_args
     \<lparr>files = [([ustr ''d'', ustr ''a (tag).txt''], 1), ([ustr ''d'', ustr ''a.txt''], 2)],
      dirs = [[ustr ''d'']], denied = []\<rparr> =
   (Returned,
    \<lparr>disk = \<lparr>files = [([ustr ''d'', ustr ''a (tag).txt''], 1), ([ustr ''d'', ustr ''a.txt''], 2)],
              dirs = [[ustr ''d'']], denied = []\<rparr>,
     collisions = 1, errors = 0, renamed = 0,
     printed = [Scanned 2, DryRunBanner,
                Skip [ustr ''d'', ustr ''a (tag).txt''] [ustr ''d'', ustr ''a.txt''],
                Summary 2 1 0 1 0, DryRunReminder]\<rparr>)"
  by (simp add: run_simps eval_simps)

text \<open>
  C6, amended: when the apply flag is unset the run leaves the file system as it found it,
  renames nothing and meets no rename error, whatever its outcome; and the execution of any
  plan from any state only reports: one line per entry, a skipped collision where the
  proposed path exists and differs from the original, a preview otherwise.
\<close>

theorem dry_run_no_mutation:
  "(\<not> apply_arg a \<longrightarrow>
      disk (snd (main E a fs)) = fs \<and> renamed (snd (main E a fs)) = 0 \<and>
      errors (snd (main E a fs)) = 0) \<and>
   execute False changes st =
     st\<lparr>collisions := collisions st +
           length (filter (\<lambda>(src, dst). exists (disk st) dst \<and> dst \<noteq> src) changes),
        printed := printed st @
           map (\<lambda>(src, dst). if exists (disk st) dst \<and> dst \<noteq> src then Skip src dst
                              else DryRun src dst) changes\<rparr>"
  using disk_main_dry_run [of a E fs] execute_dry_run [of changes st] by blast

theorem dry_run_no_mutation_witness:
  "\<not> apply_arg example_args \<and>
   main example_env example_args
     \<lparr>files = [([ustr ''d'', ustr ''a (tag).txt''], 1), ([ustr ''d'', ustr ''b.txt''], 2)],
      dirs = [[ustr ''d'']], denied = []\<rparr> =
   (Returned,
    \<lparr>disk = \<lparr>files = [([ustr ''d'', ustr ''a (tag).txt''], 1), ([ustr ''d'', ustr ''b.txt''], 2)],
              dirs = [[ustr ''d'']], denied = []\<rparr>,
     collisions = 0, errors = 0, renamed = 0,
     printed = [Scanned 2, DryRunBanner,
                DryRun [ustr ''d'', ustr ''a (tag).txt''] [ustr ''d'', ustr ''a.txt''],
                Summary 2 1 1 0 0, DryRunReminder]\<rparr>) \<and>
   disk (snd (main example_env example_args
     \<lparr>files = [([ustr ''d'', ustr ''a (tag).txt''], 1), ([ustr ''d'', ustr ''b.txt''], 2)],
      dirs = [[ustr ''d'']], denied = []\<rparr>)) =
     \<lparr>files = [([ustr ''d'', ustr ''a (tag).txt''], 1), ([ustr ''d'', ustr ''b.txt''], 2)],
      dirs = [[ustr ''d'']], denied = []\<rparr>"
proof -
  let ?fs = "\<lparr>files = [([ustr ''d'', ustr ''a (tag).txt''], 1::nat), ([ustr ''d'', ustr ''b.txt''], 2)],
      dirs = [[ustr ''d'']], denied = []\<rparr>"
  have h: "\<not> apply_arg example_args" by (simp add: example_args_def)
  have run: "main example_env example_args ?fs =
   (Returned,
    \<lparr>disk = ?fs, collisions = 0, errors = 0, renamed = 0,
     printed = [Scanned 2, DryRunBanner,
                DryRun [ustr ''d'', ustr ''a (tag).txt''] [ustr ''d'', ustr ''a.txt''],
                Summary 2 1 1 0 0, DryRunReminder]\<rparr>)"
    by (simp add: run_simps eval_simps)
  from dry_run_no_mutation [of example_args example_env ?fs "[]" "initial ?fs"] h run
  show ?thesis by blast
qed

text \<open>
  What the gate does once the run has reached it (the target resolved to an existing
  directory and the home directory resolved): with the resolved target at the root or at
  the home directory and force unset, the run ends with exit code 2 after the refusal line;
  when the resolution inside the gate raises, the gate reports the target as not
  dangerous and the run goes on to planning; with force set it goes on as well.
\<close>

lemma gate_when_reached:
  assumes "path_resolve E (target a) = Some root" and "is_dir fs root"
    and "path_resolve E (home_dir E) = Some home"
  shows "((path_resolve E root = Some [] \<or> path_resolve E root = Some home) \<and> \<not> force a \<longrightarrow>
            main E a fs = (Exit 2, say (Refusing root) (initial fs))) \<and>
         (path_resolve E root = None \<longrightarrow>
            \<not> is_dangerous_root (path_resolve E) root home \<and>
            main E a fs = plan_and_execute E a fs root) \<and>
         (force a \<longrightarrow> main E a fs = plan_and_execute E a fs root)"
  using assms by (auto simp: main_def is_dangerous_root_def)

text \<open>
  An environment in which the path \<^verbatim>\<open>/loop\<close> does not resolve: a symbolic link that points
  to itself, for which \<^verbatim>\<open>Path.resolve\<close> raises.
\<close>

definition looping_env :: env where
  "looping_env = example_env\<lparr>path_resolve :=
     (\<lambda>p. if p = [ustr ''loop''] then None else Some p)\<rparr>"

text \<open>
  C8, evaluated where it fails: for the target \<^verbatim>\<open>/loop\<close>, whose resolution raises, the
  function of the gate answers that the target is not dangerous, as the claim says; but the
  run never asks it: line 124 resolves the target outside any \<^verbatim>\<open>try\<close>, and the run ends
  with that exception instead of going on to planning. The file in the directory \<^verbatim>\<open>/d\<close>
  is not looked at.
\<close>

theorem unresolvable_target_raises:
  "\<not> is_dangerous_root (path_resolve looping_env) [ustr ''loop''] [ustr ''home'', ustr ''u''] \<and>
   main looping_env (example_args\<lparr>target := [ustr ''loop'']\<rparr>)
     \<lparr>files = [([ustr ''d'', ustr ''a (tag).txt''], 1)], dirs = [[ustr ''d'']], denied = []\<rparr> =
   (Raised ResolveError,
    initial \<lparr>files = [([ustr ''d'', ustr ''a (tag).txt''], 1)], dirs = [[ustr ''d'']],
             denied = []\<rparr>)"
  by (simp add: main_def is_dangerous_root_def looping_env_def example_env_def
      example_args_def ustr_def)

text \<open>
  C1, evaluated where it fails: in the directory \<^verbatim>\<open>/d\<close> with the one file \<^verbatim>\<open>a  b\<close> (two
  spaces) and the phrase \<^verbatim>\<open>x\<close>, the pattern has no occurrence in the name, and the
  pre-pass of the program itself prints that no file name matched. Yet the proposed name
  is \<^verbatim>\<open>a b\<close>, the plan has an entry for the file, the summary counts one matched file
  name, and with apply the file is renamed.
\<close>

theorem unmatched_name_gets_plan_entry:
  "\<not> pattern_search (=) (build_pattern id (ustr ''x'') False False) (ustr ''a  b'') \<and>
   propose_new_name (=) (ustr ''a  b'') (build_pattern id (ustr ''x'') False False) ''delete'' []
     = Inr (ustr ''a b'') \<and>
   collect_changes (=) \<lparr>files = [([ustr ''d'', ustr ''a  b''], 0)], dirs = [[ustr ''d'']], denied = []\<rparr>
     [ustr ''d''] False (build_pattern id (ustr ''x'') False False) ''delete'' []
     = Inr ([([ustr ''d'', ustr ''a  b''], [ustr ''d'', ustr ''a b''])], 1) \<and>
   main example_env (example_args\<lparr>phrase := ustr ''x'', list_matches := True\<rparr>)
     \<lparr>files = [([ustr ''d'', ustr ''a  b''], 0)], dirs = [[ustr ''d'']], denied = []\<rparr> =
   (Returned,
    \<lparr>disk = \<lparr>files = [([ustr ''d'', ustr ''a  b''], 0)], dirs = [[ustr ''d'']], denied = []\<rparr>,
     collisions = 0, errors = 0, renamed = 0,
     printed = [NoMatches, Scanned 1, DryRunBanner,
                DryRun [ustr ''d'', ustr ''a  b''] [ustr ''d'', ustr ''a b''],
                Summary 1 1 1 0 0, DryRunReminder]\<rparr>) \<and>
   main example_env (example_args\<lparr>phrase := ustr ''x'', list_matches := True, apply_arg := True\<rparr>)
     \<lparr>files = [([ustr ''d'', ustr ''a  b''], 0)], dirs = [[ustr ''d'']], denied = []\<rparr> =
   (Returned,
    \<lparr>disk = \<lparr>files = [([ustr ''d'', ustr ''a b''], 0)], dirs = [[ustr ''d'']], denied = []\<rparr>,
     collisions = 0, errors = 0, renamed = 1,
     printed = [NoMatches, Scanned 1,
                Renamed [ustr ''d'', ustr ''a  b''] [ustr ''d'', ustr ''a b''],
                Summary 1 1 1 0 0]\<rparr>)"
  by (simp add: run_simps eval_simps)

end
